theory Spec2Isabelle
  imports Main "HOL-Library.FSet" "HOL-Library.AList" "HOL-Library.Multiset"
begin

section \<open>A Sudoku solver by arc consistency and domain splitting\<close>

text \<open>
  The embedding follows \<^verbatim>\<open>sudoku_A2_45.py\<close> function by function. Python exceptions
  are values of \<open>error\<close>, and every fallible function returns \<open>error + 'a\<close> with
  \<open>Inl\<close> for the exception. A dictionary is an association list read through
  \<open>map_of\<close> and written through \<open>AList.update\<close>. A variable is a grid position.
\<close>

datatype error = KeyError | ValueError | TypeError | AttributeError | IndexError

type_synonym var = "nat \<times> nat"

type_synonym env = "var \<rightharpoonup> int"

subsection \<open>Python sets and their iteration order\<close>

text \<open>
  Python leaves the iteration order of a set unspecified. The model takes the order from
  an oracle: \<open>py_iter pick xs\<close> enumerates the elements of \<open>xs\<close>, each time yielding the
  one whose index \<open>pick\<close> names among those not yet yielded. Every enumeration of a set is
  \<open>py_iter pick\<close> of its elements for some \<open>pick\<close>, and every theorem below holds for
  every oracle.
\<close>

function py_iter :: "('a list \<Rightarrow> nat) \<Rightarrow> 'a list \<Rightarrow> 'a list" where
  "py_iter pick xs =
     (if xs = [] then []
      else let i = pick xs mod length xs
           in xs ! i # py_iter pick (take i xs @ drop (Suc i) xs))"
  by pat_completeness auto
termination
proof (relation "measure (\<lambda>(pick, xs). length xs)")
  fix pick :: "'a list \<Rightarrow> nat" and xs :: "'a list" and i
  assume "xs \<noteq> []" and i: "i = pick xs mod length xs"
  then have "i < length xs" by simp
  then show "((pick, take i xs @ drop (Suc i) xs), (pick, xs)) \<in> measure (\<lambda>(pick, xs). length xs)"
    by simp
qed simp

declare py_iter.simps [simp del]

text \<open>
  A domain is a Python list (as \<^verbatim>\<open>Sudoku.__init__\<close> builds it) or a Python set (as a
  revise step and \<^verbatim>\<open>partition_domain\<close> build it). The two are never equal in
  Python, whatever they hold.
\<close>

datatype dom = PyList "int list" | PySet "int fset"

type_synonym domains = "(var \<times> dom) list"

datatype condition = Is_all_unique

record constraint =
  cid :: nat
  scope :: "var list"
  condition :: condition

type_synonym arc = "var \<times> constraint"

record chooser =
  var_order :: "var list \<Rightarrow> nat"
  val_order :: "int list \<Rightarrow> nat"
  arc_pick :: "domains \<Rightarrow> arc list \<Rightarrow> nat"

fun dom_len :: "dom \<Rightarrow> nat" where
  "dom_len (PyList xs) = length xs"
| "dom_len (PySet S) = fcard S"

fun iter :: "chooser \<Rightarrow> dom \<Rightarrow> int list" where
  "iter orc (PyList xs) = xs"
| "iter orc (PySet S) = py_iter (val_order orc) (sorted_list_of_fset S)"

fun elems :: "dom \<Rightarrow> int set" where
  "elems (PyList xs) = set xs"
| "elems (PySet S) = fset S"

definition lookup :: "('k \<times> 'v) list \<Rightarrow> 'k \<Rightarrow> error + 'v" where
  "lookup d k = (case map_of d k of None \<Rightarrow> Inl KeyError | Some v \<Rightarrow> Inr v)"

subsection \<open>Module-level functions\<close>

text \<open>
  \<^verbatim>\<open>all(assignment[p1] != assignment[p2] for p1 in positions for p2 in positions if p1 != p2)\<close>:
  the pairs are read in order, a missing key raises, and the first equal pair stops the
  scan.
\<close>

fun all_differ :: "env \<Rightarrow> (var \<times> var) list \<Rightarrow> error + bool" where
  "all_differ a [] = Inr True"
| "all_differ a ((p1, p2) # ps) =
     (case a p1 of None \<Rightarrow> Inl KeyError
      | Some x \<Rightarrow>
        (case a p2 of None \<Rightarrow> Inl KeyError
         | Some y \<Rightarrow> if x \<noteq> y then all_differ a ps else Inr False))"

definition is_all_unique :: "env \<Rightarrow> var list \<Rightarrow> error + bool" where
  "is_all_unique assignment positions =
     all_differ assignment [(p1, p2). p1 \<leftarrow> positions, p2 \<leftarrow> positions, p1 \<noteq> p2]"

definition row_to_indices :: "nat \<Rightarrow> var list" where
  "row_to_indices row = [(row, col). col \<leftarrow> [0..<9]]"

definition col_to_indices :: "nat \<Rightarrow> var list" where
  "col_to_indices col = [(row, col). row \<leftarrow> [0..<9]]"

definition box_to_indices :: "nat \<Rightarrow> var list" where
  "box_to_indices box =
     (let start_row = (box div 3) * 3; start_col = (box mod 3) * 3
      in [(row, col). row \<leftarrow> [start_row..<start_row + 3], col \<leftarrow> [start_col..<start_col + 3]])"

subsection \<open>Constraint and CSP\<close>

text \<open>
  The only function ever stored in a \<^verbatim>\<open>Constraint\<close> is \<^verbatim>\<open>is_all_unique\<close>, so
  the field \<open>condition\<close> is a tag and \<open>holds\<close> dispatches on it. Python compares
  constraints by object identity; \<open>cid\<close> is that identity.
\<close>

definition holds :: "constraint \<Rightarrow> env \<Rightarrow> error + bool" where
  "holds c assignment =
     (case condition c of Is_all_unique \<Rightarrow> is_all_unique assignment (scope c))"

record csp =
  variables :: "var list"
  domains :: domains
  constraints :: "constraint list"
  var_to_const :: "(var \<times> constraint list) list"

fun register_scope ::
  "constraint \<Rightarrow> var list \<Rightarrow> (var \<times> constraint list) list \<Rightarrow> error + (var \<times> constraint list) list"
where
  "register_scope con [] m = Inr m"
| "register_scope con (v # vs) m =
     (case map_of m v of None \<Rightarrow> Inl KeyError
      | Some cs \<Rightarrow> register_scope con vs (AList.update v (List.insert con cs) m))"

fun register_all ::
  "constraint list \<Rightarrow> (var \<times> constraint list) list \<Rightarrow> error + (var \<times> constraint list) list"
where
  "register_all [] m = Inr m"
| "register_all (con # cons) m =
     (case register_scope con (scope con) m of Inl e \<Rightarrow> Inl e
      | Inr m' \<Rightarrow> register_all cons m')"

text \<open>
  \<^verbatim>\<open>CSP.__init__\<close>. The field \<open>variables\<close> is the key set of the dictionary, held in
  the order in which the set is iterated.
\<close>

definition CSP_init :: "chooser \<Rightarrow> domains \<Rightarrow> constraint list \<Rightarrow> error + csp" where
  "CSP_init orc ds cons =
     (let vs = py_iter (var_order orc) (map fst ds)
      in case register_all cons (map (\<lambda>v. (v, [])) vs) of
           Inl e \<Rightarrow> Inl e
         | Inr m \<Rightarrow> Inr \<lparr>variables = vs, domains = ds, constraints = cons, var_to_const = m\<rparr>)"

subsection \<open>Solver\<close>

definition new_to_do :: "csp \<Rightarrow> var \<Rightarrow> constraint option \<Rightarrow> error + arc list" where
  "new_to_do cs v const =
     (case map_of (var_to_const cs) v of None \<Rightarrow> Inl KeyError
      | Some ncs \<Rightarrow>
          Inr (remdups [(nvar, nconst). nconst \<leftarrow> ncs, Some nconst \<noteq> const,
                                         nvar \<leftarrow> scope nconst, nvar \<noteq> v]))"

text \<open>
  \<^verbatim>\<open>any_holds\<close> writes into \<open>env\<close> in place, so the model returns the dictionary
  with the answer. The second function is the \<^verbatim>\<open>for val in domains[var]\<close> loop of the
  first, over the values still to try.
\<close>

function any_holds ::
  "chooser \<Rightarrow> domains \<Rightarrow> constraint \<Rightarrow> env \<Rightarrow> var list \<Rightarrow> nat \<Rightarrow> var list \<Rightarrow> error + (bool \<times> env)"
and any_holds_for ::
  "chooser \<Rightarrow> domains \<Rightarrow> constraint \<Rightarrow> env \<Rightarrow> var list \<Rightarrow> nat \<Rightarrow> var list \<Rightarrow> var \<Rightarrow> int list
     \<Rightarrow> error + (bool \<times> env)"
where
  "any_holds orc ds const env other_vars ind assigned_vars =
     (if ind = length other_vars then
        (case holds const env of Inl e \<Rightarrow> Inl e | Inr b \<Rightarrow> Inr (b, env))
      else if length other_vars < ind then Inl IndexError
      else
        (case lookup ds (other_vars ! ind) of Inl e \<Rightarrow> Inl e
         | Inr d \<Rightarrow>
             any_holds_for orc ds const env other_vars ind assigned_vars
               (other_vars ! ind) (iter orc d)))"
| "any_holds_for orc ds const env other_vars ind assigned_vars v [] = Inr (False, env)"
| "any_holds_for orc ds const env other_vars ind assigned_vars v (val # vals) =
     (case is_all_unique (env(v \<mapsto> val)) (v # assigned_vars) of
        Inl e \<Rightarrow> Inl e
      | Inr False \<Rightarrow>
          any_holds_for orc ds const (env(v \<mapsto> val)) other_vars ind assigned_vars v vals
      | Inr True \<Rightarrow>
          (case any_holds orc ds const (env(v \<mapsto> val)) other_vars (ind + 1) (v # assigned_vars) of
             Inl e \<Rightarrow> Inl e
           | Inr (b, env') \<Rightarrow>
               if b then Inr (True, env')
               else any_holds_for orc ds const env' other_vars ind assigned_vars v vals))"
  by pat_completeness auto
termination
  by (relation "measures
        [\<lambda>x. case x of
               Inl (orc, ds, const, env, other_vars, ind, assigned_vars) \<Rightarrow>
                 (if ind \<le> length other_vars then 2 * (length other_vars - ind) + 3 else 1)
             | Inr (orc, ds, const, env, other_vars, ind, assigned_vars, v, vals) \<Rightarrow>
                 (if ind < length other_vars then 2 * (length other_vars - ind) + 2 else 2),
         \<lambda>x. case x of
               Inl _ \<Rightarrow> 0
             | Inr (orc, ds, const, env, other_vars, ind, assigned_vars, v, vals) \<Rightarrow> length vals]")
     auto

declare any_holds.simps [simp del]


text \<open>
  The revise step of \<^verbatim>\<open>make_arc_consistent\<close>:
  \<^verbatim>\<open>val for val in domains[var] if self.any_holds(domains, const, dict([[var,val]]), other_vars)\<close>,
  as the list of the values kept, before \<^verbatim>\<open>set(...)\<close> is taken of it.
\<close>

fun revise :: "chooser \<Rightarrow> domains \<Rightarrow> constraint \<Rightarrow> var \<Rightarrow> var list \<Rightarrow> int list \<Rightarrow> error + int list" where
  "revise orc ds const v other_vars [] = Inr []"
| "revise orc ds const v other_vars (val # vals) =
     (case any_holds orc ds const [v \<mapsto> val] other_vars 0 [] of
        Inl e \<Rightarrow> Inl e
      | Inr (b, env') \<Rightarrow>
          (case revise orc ds const v other_vars vals of
             Inl e \<Rightarrow> Inl e
           | Inr keep \<Rightarrow> Inr (if b then val # keep else keep)))"

text \<open>
  \<^verbatim>\<open>to_do\<close> is a set of arcs, held as a list without duplicates;
  \<^verbatim>\<open>to_do.pop()\<close> removes the arc that the oracle names.
\<close>

definition select_arc :: "chooser \<Rightarrow> domains \<Rightarrow> arc list \<Rightarrow> arc \<times> arc list" where
  "select_arc orc ds to_do =
     (let i = arc_pick orc ds to_do mod length to_do
      in (to_do ! i, take i to_do @ drop (Suc i) to_do))"

fun dom_weight :: "dom \<Rightarrow> nat" where
  "dom_weight (PyList xs) = Suc (length xs)"
| "dom_weight (PySet S) = fcard S"

definition weight :: "domains \<Rightarrow> nat" where
  "weight ds = sum_list (map (\<lambda>(v, d). dom_weight d) ds)"

lemma mset_py_iter: "mset (py_iter pick xs) = mset xs"
proof (induction pick xs rule: py_iter.induct)
  case (1 pick xs)
  show ?case
  proof (cases "xs = []")
    case True
    then show ?thesis by (simp add: py_iter.simps)
  next
    case False
    define i where "i = pick xs mod length xs"
    have i: "i < length xs" using False by (simp add: i_def)
    have "mset (py_iter pick xs) = add_mset (xs ! i) (mset (take i xs @ drop (Suc i) xs))"
      using False "1.IH" [OF False i_def] by (subst py_iter.simps) (simp add: i_def Let_def)
    also have "\<dots> = mset (take i xs @ xs ! i # drop (Suc i) xs)" by simp
    also have "take i xs @ xs ! i # drop (Suc i) xs = xs"
      using i by (simp add: id_take_nth_drop [symmetric])
    finally show ?thesis .
  qed
qed

lemma set_py_iter [simp]: "set (py_iter pick xs) = set xs"
  using mset_py_iter [of pick xs] by (metis set_mset_mset)

lemma length_py_iter [simp]: "length (py_iter pick xs) = length xs"
  using mset_py_iter [of pick xs] by (metis size_mset)

lemma distinct_py_iter [simp]: "distinct (py_iter pick xs) = distinct xs"
  using mset_py_iter [of pick xs] by (metis distinct_count_atmost_1 set_mset_mset)

lemma set_iter [simp]: "set (iter orc d) = elems d"
  by (cases d) simp_all

lemma revise_subset: "revise orc ds const v ovs vals = Inr keep \<Longrightarrow> set keep \<subseteq> set vals"
  by (induction vals arbitrary: keep) (auto split: sum.splits prod.splits if_splits)

lemma length_revise: "revise orc ds const v ovs vals = Inr keep \<Longrightarrow> length keep \<le> length vals"
  by (induction vals arbitrary: keep) (fastforce split: sum.splits prod.splits if_splits)+


lemma weight_update:
  "map_of ds v = Some d \<Longrightarrow> dom_weight d' < dom_weight d \<Longrightarrow> weight (AList.update v d' ds) < weight ds"
  by (induction ds) (auto simp: weight_def)

lemma weight_update_le:
  "map_of ds v = Some d \<Longrightarrow> dom_weight d' \<le> dom_weight d \<Longrightarrow> weight (AList.update v d' ds) \<le> weight ds"
  by (induction ds) (auto simp: weight_def)

lemma fcard_fset_of_list_le: "fcard (fset_of_list xs) \<le> length xs"
  by (simp add: fcard.rep_eq fset_of_list.rep_eq card_length)

lemma revised_weight:
  assumes "set keep \<subseteq> elems d" and "length keep \<le> length (iter orc d)"
    and "PySet (fset_of_list keep) \<noteq> d"
  shows "dom_weight (PySet (fset_of_list keep)) < dom_weight d"
proof (cases d)
  case (PyList xs)
  with assms(2) fcard_fset_of_list_le [of keep] show ?thesis by simp
next
  case (PySet S)
  with assms have "fset_of_list keep |\<subseteq>| S" and "fset_of_list keep \<noteq> S"
    by (auto simp: fset_of_list_elem)
  then have "fset_of_list keep |\<subset>| S" by blast
  then show ?thesis using PySet by (simp add: pfsubset_fcard_mono)
qed

lemma lookup_Inr [simp]: "lookup ds k = Inr d \<longleftrightarrow> map_of ds k = Some d"
  by (simp add: lookup_def split: option.splits)

lemma lookup_Inl [simp]: "lookup ds k = Inl e \<longleftrightarrow> map_of ds k = None \<and> e = KeyError"
  by (auto simp: lookup_def split: option.splits)

lemma length_select_arc:
  "to_do \<noteq> [] \<Longrightarrow> select_arc orc ds to_do = (a, to_do1) \<Longrightarrow> Suc (length to_do1) = length to_do"
proof -
  assume ne: "to_do \<noteq> []" and sel: "select_arc orc ds to_do = (a, to_do1)"
  define i where "i = arc_pick orc ds to_do mod length to_do"
  have "i < length to_do" using ne by (simp add: i_def)
  moreover have "to_do1 = take i to_do @ drop (Suc i) to_do"
    using sel by (simp add: select_arc_def i_def Let_def)
  ultimately show ?thesis by simp
qed

text \<open>The \<^verbatim>\<open>while to_do:\<close> loop of \<^verbatim>\<open>make_arc_consistent\<close>.\<close>

function make_arc_consistent_loop :: "chooser \<Rightarrow> csp \<Rightarrow> domains \<Rightarrow> arc list \<Rightarrow> error + domains" where
  "make_arc_consistent_loop orc cs ds to_do =
     (if to_do = [] then Inr ds
      else
        (case select_arc orc ds to_do of
           ((v, const), to_do1) \<Rightarrow>
             (case lookup ds v of
                Inl e \<Rightarrow> Inl e
              | Inr d \<Rightarrow>
                  (case revise orc ds const v (filter (\<lambda>ov. ov \<noteq> v) (scope const)) (iter orc d) of
                     Inl e \<Rightarrow> Inl e
                   | Inr keep \<Rightarrow>
                       if PySet (fset_of_list keep) \<noteq> d then
                         (case new_to_do cs v (Some const) of
                            Inl e \<Rightarrow> Inl e
                          | Inr add \<Rightarrow>
                              make_arc_consistent_loop orc cs
                                (AList.update v (PySet (fset_of_list keep)) ds)
                                (to_do1 @ filter (\<lambda>a. a \<notin> set to_do1) add))
                       else make_arc_consistent_loop orc cs ds to_do1))))"
  by pat_completeness auto
lemma make_arc_consistent_loop_total: "All make_arc_consistent_loop_dom"
proof (relation "measures [\<lambda>(orc, cs, ds, to_do). weight ds, \<lambda>(orc, cs, ds, to_do). length to_do]",
    goal_cases)
  case 1
  show ?case by simp
next
  case (2 orc cs ds to_do a to_do1 v const d keep add)
  from 2 have rev: "revise orc ds const v (filter (\<lambda>ov. ov \<noteq> v) (scope const)) (iter orc d) = Inr keep"
    and ne: "PySet (fset_of_list keep) \<noteq> d" by simp_all
  have "set keep \<subseteq> elems d" using revise_subset [OF rev] by simp
  then have "dom_weight (PySet (fset_of_list keep)) < dom_weight d"
    using length_revise [OF rev] ne by (rule revised_weight)
  then show ?case
    using 2 weight_update [of ds v d] by simp
next
  case (3 orc cs ds to_do a to_do1 v const d keep)
  then show ?case
    using length_select_arc [of to_do orc ds a to_do1] by simp
qed

termination make_arc_consistent_loop
  by (rule make_arc_consistent_loop_total)

declare make_arc_consistent_loop.simps [simp del]

definition all_arcs :: "csp \<Rightarrow> arc list" where
  "all_arcs cs = remdups [(v, const). const \<leftarrow> constraints cs, v \<leftarrow> scope const]"

definition make_arc_consistent ::
  "chooser \<Rightarrow> csp \<Rightarrow> domains option \<Rightarrow> arc list option \<Rightarrow> error + domains" where
  "make_arc_consistent orc cs orig_domains to_do =
     make_arc_consistent_loop orc cs
       (case orig_domains of None \<Rightarrow> domains cs | Some ds \<Rightarrow> ds)
       (case to_do of None \<Rightarrow> all_arcs cs | Some arcs \<Rightarrow> arcs)"


text \<open>
  \<^verbatim>\<open>select_first\<close> returns the first item, or falls off the end of its loop and
  returns \<^verbatim>\<open>None\<close>.
\<close>

definition select_first :: "'a list \<Rightarrow> 'a option" where
  "select_first iterables = (case iterables of [] \<Rightarrow> None | x # _ \<Rightarrow> Some x)"

definition select_var :: "'a list \<Rightarrow> 'a option" where
  "select_var iterables = select_first iterables"

text \<open>
  An argument of \<^verbatim>\<open>select_most_constrained_var\<close> is iterated twice, by the list
  comprehension and by the \<^verbatim>\<open>min\<close> inside its condition. A sequence can be iterated
  again from its start; a generator yields each item once, to whichever loop asks first.
  \<^verbatim>\<open>solve_recursive_ds\<close> passes a generator.
\<close>

datatype 'a iterable = Generator "'a list" | Sequence "'a list"

fun lens :: "domains \<Rightarrow> var list \<Rightarrow> error + nat list" where
  "lens D [] = Inr []"
| "lens D (v # vs) =
     (case lookup D v of Inl e \<Rightarrow> Inl e
      | Inr d \<Rightarrow> (case lens D vs of Inl e \<Rightarrow> Inl e | Inr ns \<Rightarrow> Inr (dom_len d # ns)))"

definition py_min :: "nat list \<Rightarrow> error + nat" where
  "py_min ns = (if ns = [] then Inl ValueError else Inr (Min (set ns)))"

fun most_constrained_of :: "domains \<Rightarrow> var list \<Rightarrow> var list \<Rightarrow> error + var list" where
  "most_constrained_of D xs [] = Inr []"
| "most_constrained_of D xs (v # vs) =
     (case lookup D v of Inl e \<Rightarrow> Inl e
      | Inr d \<Rightarrow>
        (case lens D xs of Inl e \<Rightarrow> Inl e
         | Inr ns \<Rightarrow>
           (case py_min ns of Inl e \<Rightarrow> Inl e
            | Inr m \<Rightarrow>
              (case most_constrained_of D xs vs of Inl e \<Rightarrow> Inl e
               | Inr r \<Rightarrow> Inr (if dom_len d = m then v # r else r)))))"

definition select_most_constrained_var :: "csp \<Rightarrow> var iterable \<Rightarrow> error + var option" where
  "select_most_constrained_var cs iterables =
     (case iterables of
        Generator [] \<Rightarrow> Inr (select_first [])
      | Generator (v # rest) \<Rightarrow>
          (case lookup (domains cs) v of Inl e \<Rightarrow> Inl e
           | Inr d \<Rightarrow>
             (case lens (domains cs) rest of Inl e \<Rightarrow> Inl e
              | Inr ns \<Rightarrow>
                (case py_min ns of Inl e \<Rightarrow> Inl e
                 | Inr m \<Rightarrow> Inr (select_first (if dom_len d = m then [v] else [])))))
      | Sequence xs \<Rightarrow>
          (case most_constrained_of (domains cs) xs xs of Inl e \<Rightarrow> Inl e
           | Inr r \<Rightarrow> Inr (select_first r)))"

text \<open>
  \<^verbatim>\<open>dom - dom1\<close> is defined for a set only: a list on the left raises
  \<^verbatim>\<open>TypeError\<close>.
\<close>

definition partition_domain :: "chooser \<Rightarrow> dom \<Rightarrow> error + (dom \<times> dom)" where
  "partition_domain orc d =
     (let split = dom_len d div 2;
          dom1 = fset_of_list (take split (iter orc d))
      in case d of
           PyList xs \<Rightarrow> Inl TypeError
         | PySet S \<Rightarrow> Inr (PySet dom1, PySet (S |-| dom1)))"

definition copy_with_assign :: "domains \<Rightarrow> var option \<Rightarrow> dom \<Rightarrow> domains" where
  "copy_with_assign ds v new_domain =
     (case v of None \<Rightarrow> ds | Some v' \<Rightarrow> AList.update v' new_domain ds)"

text \<open>
  What \<^verbatim>\<open>solve_recursive_ds\<close> returns: \<^verbatim>\<open>False\<close>, the \<^verbatim>\<open>None\<close> of a
  function that ends without \<^verbatim>\<open>return\<close>, or a dictionary. A value of the dictionary
  is what \<^verbatim>\<open>select_first\<close> returned, an integer or \<^verbatim>\<open>None\<close>.
\<close>

datatype result = PyFalse | PyNone | PyDict "(var \<times> int option) list"

fun truthy :: "result \<Rightarrow> bool" where
  "truthy PyFalse = False"
| "truthy PyNone = False"
| "truthy (PyDict m) = (m \<noteq> [])"

fun any_len :: "(nat \<Rightarrow> bool) \<Rightarrow> domains \<Rightarrow> var list \<Rightarrow> error + bool" where
  "any_len P D [] = Inr False"
| "any_len P D (v # vs) =
     (case lookup D v of Inl e \<Rightarrow> Inl e
      | Inr d \<Rightarrow> if P (dom_len d) then Inr True else any_len P D vs)"

fun all_len :: "(nat \<Rightarrow> bool) \<Rightarrow> domains \<Rightarrow> var list \<Rightarrow> error + bool" where
  "all_len P D [] = Inr True"
| "all_len P D (v # vs) =
     (case lookup D v of Inl e \<Rightarrow> Inl e
      | Inr d \<Rightarrow> if P (dom_len d) then all_len P D vs else Inr False)"

fun first_values :: "chooser \<Rightarrow> domains \<Rightarrow> var list \<Rightarrow> error + (var \<times> int option) list" where
  "first_values orc D [] = Inr []"
| "first_values orc D (v # vs) =
     (case lookup D v of Inl e \<Rightarrow> Inl e
      | Inr d \<Rightarrow>
        (case first_values orc D vs of Inl e \<Rightarrow> Inl e
         | Inr m \<Rightarrow> Inr ((v, select_first (iter orc d)) # m)))"

text \<open>The items of \<^verbatim>\<open>x for x in self.csp.variables if len(new_domains[x]) > 1\<close>.\<close>

fun open_vars :: "domains \<Rightarrow> var list \<Rightarrow> error + var list" where
  "open_vars D [] = Inr []"
| "open_vars D (x # xs) =
     (case lookup D x of Inl e \<Rightarrow> Inl e
      | Inr d \<Rightarrow>
        (case open_vars D xs of Inl e \<Rightarrow> Inl e
         | Inr r \<Rightarrow> Inr (if dom_len d > 1 then x # r else r)))"


definition shrinks :: "domains \<Rightarrow> domains \<Rightarrow> bool" where
  "shrinks ds' ds \<longleftrightarrow>
     map fst ds' = map fst ds \<and> weight ds' \<le> weight ds \<and>
     (\<forall>v d. map_of ds v = Some d \<longrightarrow>
        (\<exists>d'. map_of ds' v = Some d' \<and> elems d' \<subseteq> elems d \<and> dom_len d' \<le> dom_len d))"

lemma shrinks_refl: "shrinks ds ds"
  by (simp add: shrinks_def)

lemma shrinks_trans: "shrinks ds2 ds1 \<Longrightarrow> shrinks ds1 ds \<Longrightarrow> shrinks ds2 ds"
  unfolding shrinks_def by (fastforce intro: order_trans)

lemma map_fst_update: "map_of ds v = Some d \<Longrightarrow> map fst (AList.update v d' ds) = map fst ds"
  by (induction ds) auto

lemma shrinks_update:
  assumes "map_of ds v = Some d" "elems d' \<subseteq> elems d" "dom_len d' \<le> dom_len d"
    "dom_weight d' \<le> dom_weight d"
  shows "shrinks (AList.update v d' ds) ds"
  using assms by (auto simp: shrinks_def map_fst_update update_conv' weight_update_le)

lemma revised_dom:
  assumes rev: "revise orc ds const v ovs (iter orc d) = Inr keep"
  shows "elems (PySet (fset_of_list keep)) \<subseteq> elems d"
    and "dom_len (PySet (fset_of_list keep)) \<le> dom_len d"
    and "dom_weight (PySet (fset_of_list keep)) \<le> dom_weight d"
proof -
  have sub: "set keep \<subseteq> elems d" using revise_subset [OF rev] by simp
  then show "elems (PySet (fset_of_list keep)) \<subseteq> elems d"
    by (simp add: fset_of_list.rep_eq)
  show "dom_len (PySet (fset_of_list keep)) \<le> dom_len d"
  proof (cases d)
    case (PyList xs)
    then show ?thesis using length_revise [OF rev] fcard_fset_of_list_le [of keep] by simp
  next
    case (PySet S)
    then have "fset_of_list keep |\<subseteq>| S" using sub by (auto simp: fset_of_list_elem)
    then show ?thesis using PySet by (simp add: fcard_mono)
  qed
  then show "dom_weight (PySet (fset_of_list keep)) \<le> dom_weight d"
    by (cases d) auto
qed

lemma mac_loop_shrinks:
  "make_arc_consistent_loop orc cs ds to_do = Inr ds' \<Longrightarrow> shrinks ds' ds"
proof (induction orc cs ds to_do rule: make_arc_consistent_loop.induct)
  case (1 orc cs ds to_do)
  show ?case
  proof (cases "to_do = []")
    case True
    with "1.prems" show ?thesis by (simp add: make_arc_consistent_loop.simps shrinks_refl)
  next
    case False
    obtain v const to_do1 where sel: "select_arc orc ds to_do = ((v, const), to_do1)"
      by (metis prod.exhaust)
    from "1.prems" False sel obtain d where lk: "lookup ds v = Inr d"
      by (subst (asm) make_arc_consistent_loop.simps) (auto split: sum.splits)
    from "1.prems" False sel lk obtain keep
      where rev: "revise orc ds const v (filter (\<lambda>ov. ov \<noteq> v) (scope const)) (iter orc d) = Inr keep"
      by (subst (asm) make_arc_consistent_loop.simps) (auto split: sum.splits)
    show ?thesis
    proof (cases "PySet (fset_of_list keep) \<noteq> d")
      case True
      from "1.prems" False sel lk rev True obtain add
        where nt: "new_to_do cs v (Some const) = Inr add"
          and rec: "make_arc_consistent_loop orc cs (AList.update v (PySet (fset_of_list keep)) ds)
                      (to_do1 @ filter (\<lambda>a. a \<notin> set to_do1) add) = Inr ds'"
        by (subst (asm) make_arc_consistent_loop.simps) (auto split: sum.splits)
      have "shrinks ds' (AList.update v (PySet (fset_of_list keep)) ds)"
        using "1.IH"(1) [OF False sel [symmetric] refl lk rev True nt rec] .
      moreover have "shrinks (AList.update v (PySet (fset_of_list keep)) ds) ds"
        using lk revised_dom [OF rev] by (intro shrinks_update [of ds v d]) auto
      ultimately show ?thesis by (rule shrinks_trans)
    next
      case eq: False
      from "1.prems" False sel lk rev eq
      have rec: "make_arc_consistent_loop orc cs ds to_do1 = Inr ds'"
        by (subst (asm) make_arc_consistent_loop.simps) (auto split: sum.splits)
      show ?thesis using "1.IH"(2) [OF False sel [symmetric] refl lk rev eq rec] .
    qed
  qed
qed


lemma distinct_iter_PySet: "distinct (iter orc (PySet S))"
  by (simp add: sorted_list_of_fset.rep_eq)

lemma length_iter_PySet: "length (iter orc (PySet S)) = fcard S"
  by (simp add: sorted_list_of_fset.rep_eq fcard.rep_eq)

lemma partition_domain_PyList [simp]: "partition_domain orc (PyList xs) = Inl TypeError"
  by (simp add: partition_domain_def)

lemma partition_domain_PySet:
  assumes "partition_domain orc d = Inr (d1, d2)"
  obtains S A where "d = PySet S" "d1 = PySet A" "d2 = PySet (S |-| A)" "A |\<subseteq>| S"
    "fcard A = fcard S div 2" "fcard (S |-| A) = fcard S - fcard S div 2"
proof -
  from assms obtain S where d: "d = PySet S"
    by (cases d) (simp_all add: partition_domain_def)
  define A where "A = fset_of_list (take (fcard S div 2) (iter orc (PySet S)))"
  have d1: "d1 = PySet A" and d2: "d2 = PySet (S |-| A)"
    using assms d by (auto simp: partition_domain_def A_def Let_def)
  have sub: "A |\<subseteq>| S"
  proof
    fix x assume "x |\<in>| A"
    then have "x \<in> set (take (fcard S div 2) (iter orc (PySet S)))"
      by (simp add: A_def fset_of_list_elem)
    then have "x \<in> set (iter orc (PySet S))" by (rule in_set_takeD)
    then show "x |\<in>| S" by simp
  qed
  have "fcard A = card (set (take (fcard S div 2) (iter orc (PySet S))))"
    by (simp add: A_def fcard.rep_eq fset_of_list.rep_eq)
  also have "\<dots> = length (take (fcard S div 2) (iter orc (PySet S)))"
    by (intro distinct_card distinct_take distinct_iter_PySet)
  also have "\<dots> = fcard S div 2"
    by (simp add: length_iter_PySet del: iter.simps)
  finally have cA: "fcard A = fcard S div 2" .
  have "fcard (S |-| A) = fcard S - fcard A"
    using sub by (rule fcard_funion_fsubset)
  with cA have "fcard (S |-| A) = fcard S - fcard S div 2" by simp
  with d d1 d2 sub cA show thesis by (rule that)
qed

lemma open_vars_set:
  "open_vars D xs = Inr r \<Longrightarrow> v \<in> set r \<Longrightarrow> \<exists>d. map_of D v = Some d \<and> 1 < dom_len d"
  by (induction xs arbitrary: r) (auto split: sum.splits if_splits)

lemma open_vars_filter:
  "open_vars D xs = Inr r \<Longrightarrow> r = filter (\<lambda>x. \<exists>d. map_of D x = Some d \<and> 1 < dom_len d) xs"
  by (induction xs arbitrary: r) (auto split: sum.splits if_splits)

lemma select_generator_hd:
  "select_most_constrained_var cs (Generator its) = Inr (Some v) \<Longrightarrow> \<exists>rest. its = v # rest"
  by (cases its) (auto simp: select_most_constrained_var_def select_first_def split: sum.splits if_splits)

lemma split_weight:
  assumes lk: "map_of ds v = Some d" and big: "1 < dom_len d"
    and part: "partition_domain orc d = Inr (dom1, dom2)"
  shows "weight (copy_with_assign ds (Some v) dom1) < weight ds"
    and "weight (copy_with_assign ds (Some v) dom2) < weight ds"
proof -
  from part obtain S A where d: "d = PySet S" "dom1 = PySet A" "dom2 = PySet (S |-| A)"
    and c: "fcard A = fcard S div 2" "fcard (S |-| A) = fcard S - fcard S div 2"
    by (rule partition_domain_PySet)
  from big d have "1 < fcard S" by simp
  with c d have "dom_weight dom1 < dom_weight d" "dom_weight dom2 < dom_weight d" by simp_all
  then show "weight (copy_with_assign ds (Some v) dom1) < weight ds"
    and "weight (copy_with_assign ds (Some v) dom2) < weight ds"
    using lk by (simp_all add: copy_with_assign_def weight_update)
qed

lemma mac_shrinks:
  "make_arc_consistent orc cs (Some ds) to_do = Inr ds' \<Longrightarrow> shrinks ds' ds"
  unfolding make_arc_consistent_def by (auto dest: mac_loop_shrinks)

text \<open>
  \<^verbatim>\<open>solve_recursive_ds\<close>. \<^verbatim>\<open>if var:\<close> holds for every position, a tuple of two
  numbers, and fails for \<^verbatim>\<open>None\<close>, where the function ends without a
  \<^verbatim>\<open>return\<close>. \<^verbatim>\<open>a or b\<close> is \<open>a\<close> when \<open>a\<close> is truthy and \<open>b\<close> otherwise.
\<close>

function solve_recursive_ds ::
  "chooser \<Rightarrow> csp \<Rightarrow> domains option \<Rightarrow> arc list option \<Rightarrow> error + result" where
  "solve_recursive_ds orc cs doms to_do =
     (case make_arc_consistent orc cs (Some (case doms of None \<Rightarrow> domains cs | Some ds \<Rightarrow> ds)) to_do of
        Inl e \<Rightarrow> Inl e
      | Inr new_domains \<Rightarrow>
        (case any_len (\<lambda>n. n = 0) new_domains
                (map fst (case doms of None \<Rightarrow> domains cs | Some ds \<Rightarrow> ds)) of
           Inl e \<Rightarrow> Inl e
         | Inr True \<Rightarrow> Inr PyFalse
         | Inr False \<Rightarrow>
           (case all_len (\<lambda>n. n = 1) new_domains
                   (map fst (case doms of None \<Rightarrow> domains cs | Some ds \<Rightarrow> ds)) of
              Inl e \<Rightarrow> Inl e
            | Inr True \<Rightarrow>
              (case first_values orc new_domains
                      (map fst (case doms of None \<Rightarrow> domains cs | Some ds \<Rightarrow> ds)) of
                 Inl e \<Rightarrow> Inl e
               | Inr solution \<Rightarrow> Inr (PyDict solution))
            | Inr False \<Rightarrow>
              (case open_vars new_domains (variables cs) of
                 Inl e \<Rightarrow> Inl e
               | Inr items \<Rightarrow>
                 (case select_most_constrained_var cs (Generator items) of
                    Inl e \<Rightarrow> Inl e
                  | Inr None \<Rightarrow> Inr PyNone
                  | Inr (Some v) \<Rightarrow>
                    (case lookup new_domains v of
                       Inl e \<Rightarrow> Inl e
                     | Inr d \<Rightarrow>
                       (case partition_domain orc d of
                          Inl e \<Rightarrow> Inl e
                        | Inr (dom1, dom2) \<Rightarrow>
                          (case new_to_do cs v None of
                             Inl e \<Rightarrow> Inl e
                           | Inr arcs \<Rightarrow>
                             (case solve_recursive_ds orc cs
                                     (Some (copy_with_assign new_domains (Some v) dom1)) (Some arcs) of
                                Inl e \<Rightarrow> Inl e
                              | Inr r \<Rightarrow>
                                  if truthy r then Inr r
                                  else solve_recursive_ds orc cs
                                         (Some (copy_with_assign new_domains (Some v) dom2))
                                         (Some arcs))))))))))"
  by pat_completeness auto
lemma solve_recursive_ds_total: "All solve_recursive_ds_dom"
proof (relation "measure (\<lambda>(orc, cs, doms, to_do).
          weight (case doms of None \<Rightarrow> domains cs | Some ds \<Rightarrow> ds))", goal_cases)
  case 1
  show ?case by simp
next
  case (2 orc cs doms to_do new_domains b1 b2 items vo v d p dom1 dom2 arcs)
  from 2 have "shrinks new_domains (case doms of None \<Rightarrow> domains cs | Some ds \<Rightarrow> ds)"
    by (auto dest: mac_shrinks)
  then have le: "weight new_domains \<le> weight (case doms of None \<Rightarrow> domains cs | Some ds \<Rightarrow> ds)"
    by (simp add: shrinks_def)
  from 2 have "v \<in> set items" by (auto dest: select_generator_hd)
  with 2 have "\<exists>d. map_of new_domains v = Some d \<and> 1 < dom_len d"
    by (auto dest: open_vars_set)
  with 2 have "1 < dom_len d" and "map_of new_domains v = Some d" by auto
  with 2 have "weight (copy_with_assign new_domains (Some v) dom1) < weight new_domains"
    by (auto intro: split_weight)
  with le show ?case by simp
next
  case (3 orc cs doms to_do new_domains b1 b2 items vo v d p dom1 dom2 arcs r)
  from 3 have "shrinks new_domains (case doms of None \<Rightarrow> domains cs | Some ds \<Rightarrow> ds)"
    by (auto dest: mac_shrinks)
  then have le: "weight new_domains \<le> weight (case doms of None \<Rightarrow> domains cs | Some ds \<Rightarrow> ds)"
    by (simp add: shrinks_def)
  from 3 have "v \<in> set items" by (auto dest: select_generator_hd)
  with 3 have "\<exists>d. map_of new_domains v = Some d \<and> 1 < dom_len d"
    by (auto dest: open_vars_set)
  with 3 have "1 < dom_len d" and "map_of new_domains v = Some d" by auto
  with 3 have "weight (copy_with_assign new_domains (Some v) dom2) < weight new_domains"
    by (auto intro: split_weight)
  with le show ?case by simp
qed

termination solve_recursive_ds
  by (rule solve_recursive_ds_total)

declare solve_recursive_ds.simps [simp del]


subsection \<open>Sudoku\<close>

text \<open>
  A cell of the answer grid holds what was stored there: an integer, or the
  \<^verbatim>\<open>None\<close> that \<^verbatim>\<open>select_first\<close> returns for an empty domain.
\<close>

record sudoku =
  puzzle :: "int list list"
  ans :: "int option list list"
  csp :: csp

definition initial_domains :: "int list list \<Rightarrow> domains" where
  "initial_domains pz =
     [((r, c), PyList [1..9]). r \<leftarrow> [0..<length pz], c \<leftarrow> [0..<length (pz ! r)]]"

definition assign_known :: "int list list \<Rightarrow> var \<Rightarrow> domains \<Rightarrow> domains" where
  "assign_known pz = (\<lambda>(i, j) ds.
     if pz ! i ! j \<noteq> 0 then AList.update (i, j) (PyList [pz ! i ! j]) ds else ds)"

definition known_domains :: "int list list \<Rightarrow> domains" where
  "known_domains pz =
     fold (assign_known pz) [(i, j). i \<leftarrow> [0..<length pz], j \<leftarrow> [0..<length (pz ! i)]]
       (initial_domains pz)"

definition sudoku_constraints :: "constraint list" where
  "sudoku_constraints =
     [\<lparr>cid = i, scope = [(i, j). j \<leftarrow> [0..<9]], condition = Is_all_unique\<rparr>. i \<leftarrow> [0..<9]] @
     [\<lparr>cid = 9 + j, scope = [(i, j). i \<leftarrow> [0..<9]], condition = Is_all_unique\<rparr>. j \<leftarrow> [0..<9]] @
     [\<lparr>cid = 18 + q, scope = box_to_indices q, condition = Is_all_unique\<rparr>. q \<leftarrow> [0..<9]]"

definition Sudoku_init :: "chooser \<Rightarrow> int list list \<Rightarrow> error + sudoku" where
  "Sudoku_init orc pz =
     (case CSP_init orc (known_domains pz) sudoku_constraints of
        Inl e \<Rightarrow> Inl e
      | Inr c \<Rightarrow> Inr \<lparr>puzzle = pz, ans = map (map Some) pz, csp = c\<rparr>)"

text \<open>
  \<^verbatim>\<open>for pos, val in solutions.items(): self.ans[pos[0]][pos[1]] = val\<close>; an index
  past the end of a list raises.
\<close>

fun store :: "int option list list \<Rightarrow> (var \<times> int option) list \<Rightarrow> error + int option list list" where
  "store g [] = Inr g"
| "store g (((r, c), val) # items) =
     (if r < length g \<and> c < length (g ! r) then store (g[r := (g ! r)[c := val]]) items
      else Inl IndexError)"

text \<open>
  \<^verbatim>\<open>Sudoku.solve\<close>. \<^verbatim>\<open>solutions.items()\<close> exists for a dictionary only, so
  \<^verbatim>\<open>False\<close> and \<^verbatim>\<open>None\<close> raise \<^verbatim>\<open>AttributeError\<close>. The grid returned is
  the new value of \<^verbatim>\<open>self.ans\<close>.
\<close>

definition solve :: "chooser \<Rightarrow> sudoku \<Rightarrow> error + int option list list" where
  "solve orc s =
     (case solve_recursive_ds orc (csp s) None None of
        Inl e \<Rightarrow> Inl e
      | Inr PyFalse \<Rightarrow> Inl AttributeError
      | Inr PyNone \<Rightarrow> Inl AttributeError
      | Inr (PyDict solutions) \<Rightarrow> store (replicate 10 (replicate 10 (Some 0))) solutions)"

text \<open>The whole run on a puzzle: construct, then solve.\<close>

definition run :: "chooser \<Rightarrow> int list list \<Rightarrow> error + int option list list" where
  "run orc pz = (case Sudoku_init orc pz of Inl e \<Rightarrow> Inl e | Inr s \<Rightarrow> solve orc s)"


subsection \<open>A small problem for examples\<close>

text \<open>
  Three variables and one constraint over the first two; the third variable is in no
  scope. The oracle \<open>first_choice\<close> always names the first element.
\<close>

definition first_choice :: chooser where
  "first_choice = \<lparr>var_order = (\<lambda>xs. 0), val_order = (\<lambda>xs. 0), arc_pick = (\<lambda>ds arcs. 0)\<rparr>"

definition tiny_constraint :: constraint where
  "tiny_constraint = \<lparr>cid = 0, scope = [(0, 0), (0, 1)], condition = Is_all_unique\<rparr>"

definition tiny_domains :: domains where
  "tiny_domains = [((0, 0), PyList [1, 2]), ((0, 1), PyList [2]), ((0, 2), PyList [1, 2, 3])]"

definition tiny_csp :: csp where
  "tiny_csp = \<lparr>variables = [(0, 0), (0, 1), (0, 2)], domains = tiny_domains,
     constraints = [tiny_constraint],
     var_to_const = [((0, 0), [tiny_constraint]), ((0, 1), [tiny_constraint]), ((0, 2), [])]\<rparr>"

definition tiny_consistent :: domains where
  "tiny_consistent = [((0, 0), PySet {|1|}), ((0, 1), PySet {|2|}), ((0, 2), PyList [1, 2, 3])]"

lemma tiny_csp_init: "CSP_init first_choice tiny_domains [tiny_constraint] = Inr tiny_csp"
  by code_simp

lemma tiny_mac: "make_arc_consistent first_choice tiny_csp None None = Inr tiny_consistent"
  by code_simp

lemma tiny_mac_Some:
  "make_arc_consistent first_choice tiny_csp (Some tiny_domains) None = Inr tiny_consistent"
  by code_simp

lemma tiny_partition:
  "partition_domain first_choice (PySet {|1, 2, 3|}) = Inr (PySet {|1|}, PySet {|2, 3|})"
  by code_simp

subsection \<open>Domains never grow\<close>

lemma shrinks_back:
  assumes "shrinks ds' ds" and "map_of ds' v = Some d'"
  shows "\<exists>d. map_of ds v = Some d \<and> elems d' \<subseteq> elems d \<and> dom_len d' \<le> dom_len d"
proof -
  from assms(2) have "v \<in> set (map fst ds')"
    by (auto dest!: map_of_SomeD intro: rev_image_eqI)
  with assms(1) have "v \<in> set (map fst ds)"
    by (simp add: shrinks_def)
  then obtain d where d: "map_of ds v = Some d"
    by (metis map_of_eq_None_iff not_Some_eq set_map)
  with assms show ?thesis unfolding shrinks_def by fastforce
qed

lemma partition_domain_elems:
  assumes "partition_domain orc d = Inr (d1, d2)"
  shows "elems d1 \<subseteq> elems d" "elems d2 \<subseteq> elems d" "dom_len d1 \<le> dom_len d" "dom_len d2 \<le> dom_len d"
proof -
  from assms obtain S A where *: "d = PySet S" "d1 = PySet A" "d2 = PySet (S |-| A)" "A |\<subseteq>| S"
    "fcard A = fcard S div 2" "fcard (S |-| A) = fcard S - fcard S div 2"
    by (rule partition_domain_PySet)
  then show "elems d1 \<subseteq> elems d" "elems d2 \<subseteq> elems d" "dom_len d1 \<le> dom_len d" "dom_len d2 \<le> dom_len d"
    by (auto simp: less_eq_fset.rep_eq)
qed

text \<open>
  C8. The domain of every variable in the map that \<open>make_arc_consistent\<close> returns is a
  subset of that variable's domain in the map it was given, and no longer; each half that
  \<open>partition_domain\<close> returns is a subset of the domain it splits, and no longer. Neither
  operation adds a value to a domain.
\<close>

theorem domains_never_grow:
  "(make_arc_consistent orc cs orig_domains to_do = Inr ds' \<longrightarrow>
      map fst ds' = map fst (case orig_domains of None \<Rightarrow> domains cs | Some ds \<Rightarrow> ds) \<and>
      (\<forall>v d'. map_of ds' v = Some d' \<longrightarrow>
         (\<exists>d. map_of (case orig_domains of None \<Rightarrow> domains cs | Some ds \<Rightarrow> ds) v = Some d \<and>
              elems d' \<subseteq> elems d \<and> dom_len d' \<le> dom_len d))) \<and>
   (partition_domain orc d = Inr (dom1, dom2) \<longrightarrow>
      elems dom1 \<subseteq> elems d \<and> elems dom2 \<subseteq> elems d \<and>
      dom_len dom1 \<le> dom_len d \<and> dom_len dom2 \<le> dom_len d)"
proof (intro conjI impI allI)
  assume mac: "make_arc_consistent orc cs orig_domains to_do = Inr ds'"
  then have sh: "shrinks ds' (case orig_domains of None \<Rightarrow> domains cs | Some ds \<Rightarrow> ds)"
    unfolding make_arc_consistent_def by (rule mac_loop_shrinks)
  then show "map fst ds' = map fst (case orig_domains of None \<Rightarrow> domains cs | Some ds \<Rightarrow> ds)"
    by (simp add: shrinks_def)
  fix v d' assume "map_of ds' v = Some d'"
  with sh show "\<exists>d. map_of (case orig_domains of None \<Rightarrow> domains cs | Some ds \<Rightarrow> ds) v = Some d \<and>
              elems d' \<subseteq> elems d \<and> dom_len d' \<le> dom_len d"
    by (rule shrinks_back)
next
  assume p: "partition_domain orc d = Inr (dom1, dom2)"
  show "elems dom1 \<subseteq> elems d" "elems dom2 \<subseteq> elems d"
    "dom_len dom1 \<le> dom_len d" "dom_len dom2 \<le> dom_len d"
    using partition_domain_elems [OF p] by simp_all
qed

theorem domains_never_grow_witness:
  "make_arc_consistent first_choice tiny_csp None None = Inr tiny_consistent \<and>
   map_of tiny_consistent (0, 0) = Some (PySet {|1|}) \<and>
   (\<exists>d. map_of (domains tiny_csp) (0, 0) = Some d \<and> elems (PySet {|1|}) \<subseteq> elems d \<and>
        dom_len (PySet {|1|}) \<le> dom_len d) \<and>
   partition_domain first_choice (PySet {|1, 2, 3|}) = Inr (PySet {|1|}, PySet {|2, 3|}) \<and>
   elems (PySet {|1|}) \<subseteq> elems (PySet {|1, 2, 3|}) \<and>
   elems (PySet {|2, 3|}) \<subseteq> elems (PySet {|1, 2, 3|})"
proof -
  note inst = domains_never_grow [of first_choice tiny_csp None None tiny_consistent
      "PySet {|1, 2, 3|}" "PySet {|1|}" "PySet {|2, 3|}"]
  have m: "map_of tiny_consistent (0, 0) = Some (PySet {|1|})"
    by (simp add: tiny_consistent_def)
  from inst tiny_mac
  have "\<forall>v d'. map_of tiny_consistent v = Some d' \<longrightarrow>
         (\<exists>d. map_of (domains tiny_csp) v = Some d \<and> elems d' \<subseteq> elems d \<and> dom_len d' \<le> dom_len d)"
    by simp
  with m have a: "\<exists>d. map_of (domains tiny_csp) (0, 0) = Some d \<and> elems (PySet {|1|}) \<subseteq> elems d \<and>
        dom_len (PySet {|1|}) \<le> dom_len d"
    by blast
  from inst tiny_partition
  have b: "elems (PySet {|1|}) \<subseteq> elems (PySet {|1, 2, 3|})"
    and c: "elems (PySet {|2, 3|}) \<subseteq> elems (PySet {|1, 2, 3|})"
    by blast+
  from tiny_mac m a tiny_partition b c show ?thesis by blast
qed


subsection \<open>Termination\<close>

lemma partition_domain_halves:
  assumes "2 \<le> fcard S"
  shows "\<exists>A B. partition_domain orc (PySet S) = Inr (PySet A, PySet B) \<and>
           A |\<inter>| B = {||} \<and> A |\<union>| B = S \<and> A \<noteq> {||} \<and> B \<noteq> {||} \<and>
           fcard A = fcard S div 2 \<and> fcard B = fcard S - fcard S div 2 \<and>
           fcard A < fcard S \<and> fcard B < fcard S"
proof -
  obtain d1 d2 where p: "partition_domain orc (PySet S) = Inr (d1, d2)"
    by (simp add: partition_domain_def Let_def)
  then obtain S' A where *: "PySet S = PySet S'" "d1 = PySet A" "d2 = PySet (S' |-| A)"
    "A |\<subseteq>| S'" "fcard A = fcard S' div 2" "fcard (S' |-| A) = fcard S' - fcard S' div 2"
    by (rule partition_domain_PySet)
  then have S: "S' = S" by simp
  from * S assms have sz: "0 < fcard A" "0 < fcard (S |-| A)" "fcard A < fcard S"
    "fcard (S |-| A) < fcard S"
    by simp_all
  have neA: "A \<noteq> {||}" using sz(1) by (metis fcard_fempty less_irrefl)
  have neB: "S |-| A \<noteq> {||}" using sz(2) by (metis fcard_fempty less_irrefl)
  have disj: "A |\<inter>| (S |-| A) = {||}" by blast
  have un: "A |\<union>| (S |-| A) = S" using *(4) S by blast
  have eq: "partition_domain orc (PySet S) = Inr (PySet A, PySet (S |-| A))"
    using p *(2,3) S by simp
  have cA: "fcard A = fcard S div 2" and cB: "fcard (S |-| A) = fcard S - fcard S div 2"
    using *(5,6) S by simp_all
  show ?thesis
    apply (rule exI [of _ A])
    apply (rule exI [of _ "S |-| A"])
    using eq disj un neA neB cA cB sz(3,4) apply blast
    done
qed

text \<open>
  C9. The recursion of \<open>solve_recursive_ds\<close> and the work loop of
  \<open>make_arc_consistent\<close> end on every input: every argument is in the domain of
  termination of the two functions. \<open>partition_domain\<close> splits a set of \<open>n \<ge> 2\<close> values
  into two disjoint non-empty sets of \<open>n div 2\<close> and \<open>n - n div 2\<close> values that together
  are the set, each with fewer values than \<open>n\<close>.
\<close>

theorem search_terminates:
  "solve_recursive_ds_dom (orc, cs, doms, to_do) \<and>
   make_arc_consistent_loop_dom (orc, cs, ds, arcs) \<and>
   (2 \<le> fcard S \<longrightarrow>
      (\<exists>A B. partition_domain orc (PySet S) = Inr (PySet A, PySet B) \<and>
           A |\<inter>| B = {||} \<and> A |\<union>| B = S \<and> A \<noteq> {||} \<and> B \<noteq> {||} \<and>
           fcard A = fcard S div 2 \<and> fcard B = fcard S - fcard S div 2 \<and>
           fcard A < fcard S \<and> fcard B < fcard S))"
  using solve_recursive_ds_total make_arc_consistent_loop_total partition_domain_halves
  by blast

theorem search_terminates_witness:
  "2 \<le> fcard {|1, 2, 3 :: int|} \<and>
   (\<exists>A B. partition_domain first_choice (PySet {|1, 2, 3|}) = Inr (PySet A, PySet B) \<and>
        A |\<inter>| B = {||} \<and> A |\<union>| B = {|1, 2, 3|} \<and> A \<noteq> {||} \<and> B \<noteq> {||} \<and>
        fcard A = fcard {|1, 2, 3 :: int|} div 2 \<and>
        fcard B = fcard {|1, 2, 3 :: int|} - fcard {|1, 2, 3 :: int|} div 2 \<and>
        fcard A < fcard {|1, 2, 3 :: int|} \<and> fcard B < fcard {|1, 2, 3 :: int|})"
proof -
  have h: "2 \<le> fcard {|1, 2, 3 :: int|}" by code_simp
  from search_terminates [of first_choice tiny_csp None None tiny_domains "[]" "{|1, 2, 3|}"] h
  show ?thesis by blast
qed

subsection \<open>The generator read twice\<close>

lemma select_generator_one:
  "map_of (domains cs) v \<noteq> None \<Longrightarrow> select_most_constrained_var cs (Generator [v]) = Inl ValueError"
  by (auto simp: select_most_constrained_var_def py_min_def lookup_def split: option.splits)

text \<open>
  C10. Given a generator that yields exactly one variable (a key of the domains of the
  problem), \<open>select_most_constrained_var\<close> raises \<open>ValueError\<close> and does not return the
  variable. So \<open>solve_recursive_ds\<close> raises \<open>ValueError\<close> when, after propagation, no
  domain is empty, not every domain has one value, and exactly one variable has more than
  one value.
\<close>

theorem one_item_generator_raises:
  "(map_of (domains cs) v \<noteq> None \<longrightarrow>
      select_most_constrained_var cs (Generator [v]) = Inl ValueError) \<and>
   (make_arc_consistent orc cs (Some (case doms of None \<Rightarrow> domains cs | Some ds \<Rightarrow> ds)) to_do
        = Inr new_domains \<and>
    any_len (\<lambda>n. n = 0) new_domains (map fst (case doms of None \<Rightarrow> domains cs | Some ds \<Rightarrow> ds))
        = Inr False \<and>
    all_len (\<lambda>n. n = 1) new_domains (map fst (case doms of None \<Rightarrow> domains cs | Some ds \<Rightarrow> ds))
        = Inr False \<and>
    open_vars new_domains (variables cs) = Inr [v] \<and>
    map_of (domains cs) v \<noteq> None \<longrightarrow>
      solve_recursive_ds orc cs doms to_do = Inl ValueError)"
proof (intro conjI impI)
  assume "map_of (domains cs) v \<noteq> None"
  then show "select_most_constrained_var cs (Generator [v]) = Inl ValueError"
    by (rule select_generator_one)
next
  assume h: "make_arc_consistent orc cs (Some (case doms of None \<Rightarrow> domains cs | Some ds \<Rightarrow> ds)) to_do
        = Inr new_domains \<and>
    any_len (\<lambda>n. n = 0) new_domains (map fst (case doms of None \<Rightarrow> domains cs | Some ds \<Rightarrow> ds))
        = Inr False \<and>
    all_len (\<lambda>n. n = 1) new_domains (map fst (case doms of None \<Rightarrow> domains cs | Some ds \<Rightarrow> ds))
        = Inr False \<and>
    open_vars new_domains (variables cs) = Inr [v] \<and>
    map_of (domains cs) v \<noteq> None"
  then have "select_most_constrained_var cs (Generator [v]) = Inl ValueError"
    by (intro select_generator_one) simp
  with h show "solve_recursive_ds orc cs doms to_do = Inl ValueError"
    by (subst solve_recursive_ds.simps) simp
qed

lemma tiny_checks:
  "any_len (\<lambda>n. n = 0) tiny_consistent (map fst tiny_domains) = Inr False"
  "all_len (\<lambda>n. n = 1) tiny_consistent (map fst tiny_domains) = Inr False"
  "open_vars tiny_consistent (variables tiny_csp) = Inr [(0, 2)]"
  "map_of (domains tiny_csp) (0, 2) \<noteq> None"
  by code_simp+

theorem one_item_generator_raises_witness:
  "map_of (domains tiny_csp) (0, 2) \<noteq> None \<and>
   select_most_constrained_var tiny_csp (Generator [(0, 2)]) = Inl ValueError \<and>
   make_arc_consistent first_choice tiny_csp (Some (domains tiny_csp)) None = Inr tiny_consistent \<and>
   any_len (\<lambda>n. n = 0) tiny_consistent (map fst (domains tiny_csp)) = Inr False \<and>
   all_len (\<lambda>n. n = 1) tiny_consistent (map fst (domains tiny_csp)) = Inr False \<and>
   open_vars tiny_consistent (variables tiny_csp) = Inr [(0, 2)] \<and>
   solve_recursive_ds first_choice tiny_csp None None = Inl ValueError"
proof -
  have d: "domains tiny_csp = tiny_domains" by (simp add: tiny_csp_def)
  from one_item_generator_raises [of tiny_csp "(0, 2)" first_choice None None tiny_consistent]
    tiny_checks tiny_mac_Some d
  show ?thesis by simp
qed


subsection \<open>What a revise step keeps\<close>

lemma all_differ_True:
  "all_differ a ps = Inr True \<longleftrightarrow>
     (\<forall>(p1, p2)\<in>set ps. \<exists>x y. a p1 = Some x \<and> a p2 = Some y \<and> x \<noteq> y)"
  by (induction a ps rule: all_differ.induct) (auto split: option.splits)

lemma all_differ_False:
  "all_differ a ps = Inr False \<Longrightarrow> \<exists>(p1, p2)\<in>set ps. \<exists>x. a p1 = Some x \<and> a p2 = Some x"
  by (induction a ps rule: all_differ.induct) (auto split: option.splits if_splits)

lemma all_differ_defined:
  "\<forall>(p1, p2)\<in>set ps. a p1 \<noteq> None \<and> a p2 \<noteq> None \<Longrightarrow> \<exists>b. all_differ a ps = Inr b"
  by (induction a ps rule: all_differ.induct) (auto split: option.splits)

lemma set_pairs [simp]:
  "set [(p1, p2). p1 \<leftarrow> ps, p2 \<leftarrow> ps, p1 \<noteq> p2] = {(p1, p2). p1 \<in> set ps \<and> p2 \<in> set ps \<and> p1 \<noteq> p2}"
  by auto

lemma is_all_unique_True:
  "is_all_unique a ps = Inr True \<longleftrightarrow>
     (\<forall>p1\<in>set ps. \<forall>p2\<in>set ps. p1 \<noteq> p2 \<longrightarrow> (\<exists>x y. a p1 = Some x \<and> a p2 = Some y \<and> x \<noteq> y))"
  unfolding is_all_unique_def all_differ_True set_pairs by auto

lemma is_all_unique_False:
  "is_all_unique a ps = Inr False \<Longrightarrow>
     \<exists>p1\<in>set ps. \<exists>p2\<in>set ps. p1 \<noteq> p2 \<and> (\<exists>x. a p1 = Some x \<and> a p2 = Some x)"
proof -
  assume "is_all_unique a ps = Inr False"
  then obtain p1 p2 x where "(p1, p2) \<in> set [(p1, p2). p1 \<leftarrow> ps, p2 \<leftarrow> ps, p1 \<noteq> p2]"
    and "a p1 = Some x" "a p2 = Some x"
    unfolding is_all_unique_def by (blast dest: all_differ_False)
  then show ?thesis unfolding set_pairs by blast
qed

lemma is_all_unique_defined:
  "\<forall>p\<in>set ps. a p \<noteq> None \<Longrightarrow> \<exists>b. is_all_unique a ps = Inr b"
  unfolding is_all_unique_def by (rule all_differ_defined) auto

lemma holds_True:
  "holds c a = Inr True \<longleftrightarrow>
     (\<forall>p1\<in>set (scope c). \<forall>p2\<in>set (scope c). p1 \<noteq> p2 \<longrightarrow>
        (\<exists>x y. a p1 = Some x \<and> a p2 = Some y \<and> x \<noteq> y))"
  by (cases "condition c") (simp add: holds_def is_all_unique_True)

lemma holds_defined: "\<forall>p\<in>set (scope c). a p \<noteq> None \<Longrightarrow> \<exists>b. holds c a = Inr b"
  by (cases "condition c") (simp add: holds_def is_all_unique_defined)

text \<open>
  \<open>completable ds c vs env\<close>: some choice of one value for each variable of \<open>vs\<close>, drawn
  from its domain in \<open>ds\<close>, extends \<open>env\<close> to an assignment that satisfies \<open>c\<close>.
\<close>

definition completable :: "domains \<Rightarrow> constraint \<Rightarrow> var list \<Rightarrow> env \<Rightarrow> bool" where
  "completable ds c vs env \<longleftrightarrow>
     (\<exists>\<sigma>. (\<forall>u. u \<notin> set vs \<longrightarrow> \<sigma> u = env u) \<and>
          (\<forall>u\<in>set vs. \<exists>d y. map_of ds u = Some d \<and> \<sigma> u = Some y \<and> y \<in> elems d) \<and>
          holds c \<sigma> = Inr True)"

lemma completable_cong:
  assumes "\<And>u. u \<notin> set vs \<Longrightarrow> e1 u = e2 u"
  shows "completable ds c vs e1 = completable ds c vs e2"
  unfolding completable_def using assms by auto

lemma completable_Nil: "completable ds c [] env = (holds c env = Inr True)"
proof -
  have "\<And>\<sigma>. (\<forall>u. \<sigma> u = env u) \<longleftrightarrow> \<sigma> = env" by auto
  then show ?thesis by (simp add: completable_def)
qed

lemma completable_Cons:
  assumes "u \<notin> set vs" and "map_of ds u = Some d"
  shows "completable ds c (u # vs) env \<longleftrightarrow> (\<exists>val\<in>elems d. completable ds c vs (env(u \<mapsto> val)))"
proof
  assume "completable ds c (u # vs) env"
  then obtain \<sigma> where s: "\<forall>w. w \<notin> set (u # vs) \<longrightarrow> \<sigma> w = env w"
    "\<forall>w\<in>set (u # vs). \<exists>d y. map_of ds w = Some d \<and> \<sigma> w = Some y \<and> y \<in> elems d"
    "holds c \<sigma> = Inr True"
    unfolding completable_def by blast
  from s(2) assms obtain y where y: "\<sigma> u = Some y" "y \<in> elems d" by fastforce
  have "completable ds c vs (env(u \<mapsto> y))"
    unfolding completable_def
  proof (intro exI [of _ \<sigma>] conjI)
    show "\<forall>w. w \<notin> set vs \<longrightarrow> \<sigma> w = (env(u \<mapsto> y)) w" using s(1) y by auto
    show "\<forall>w\<in>set vs. \<exists>d y. map_of ds w = Some d \<and> \<sigma> w = Some y \<and> y \<in> elems d"
      using s(2) by auto
    show "holds c \<sigma> = Inr True" by (rule s(3))
  qed
  with y show "\<exists>val\<in>elems d. completable ds c vs (env(u \<mapsto> val))" by blast
next
  assume "\<exists>val\<in>elems d. completable ds c vs (env(u \<mapsto> val))"
  then obtain val \<sigma> where val: "val \<in> elems d"
    and s: "\<forall>w. w \<notin> set vs \<longrightarrow> \<sigma> w = (env(u \<mapsto> val)) w"
    "\<forall>w\<in>set vs. \<exists>d y. map_of ds w = Some d \<and> \<sigma> w = Some y \<and> y \<in> elems d"
    "holds c \<sigma> = Inr True"
    unfolding completable_def by blast
  show "completable ds c (u # vs) env"
    unfolding completable_def
  proof (intro exI [of _ \<sigma>] conjI)
    show "\<forall>w. w \<notin> set (u # vs) \<longrightarrow> \<sigma> w = env w" using s(1) by auto
    have "\<sigma> u = Some val" using s(1) assms(1) by (metis fun_upd_same)
    then show "\<forall>w\<in>set (u # vs). \<exists>d y. map_of ds w = Some d \<and> \<sigma> w = Some y \<and> y \<in> elems d"
      using s(2) assms(2) val by auto
    show "holds c \<sigma> = Inr True" by (rule s(3))
  qed
qed

lemma completable_pruned:
  assumes sub: "set ps \<subseteq> set (scope c)" and out: "\<forall>p\<in>set ps. p \<notin> set vs"
    and clash: "is_all_unique env ps = Inr False"
  shows "\<not> completable ds c vs env"
proof
  assume "completable ds c vs env"
  then obtain \<sigma> where s: "\<forall>w. w \<notin> set vs \<longrightarrow> \<sigma> w = env w" "holds c \<sigma> = Inr True"
    unfolding completable_def by blast
  from clash obtain p1 p2 x where p: "p1 \<in> set ps" "p2 \<in> set ps" "p1 \<noteq> p2"
    "env p1 = Some x" "env p2 = Some x"
    by (blast dest: is_all_unique_False)
  with out s(1) have "\<sigma> p1 = Some x" "\<sigma> p2 = Some x" by metis+
  moreover from p sub have "p1 \<in> set (scope c)" "p2 \<in> set (scope c)" by auto
  ultimately show False using s(2) p(3) unfolding holds_True by fastforce
qed


lemma drop_nth_Cons: "ind < length ovs \<Longrightarrow> drop ind ovs = ovs ! ind # drop (Suc ind) ovs"
  by (simp add: Cons_nth_drop_Suc)

lemma distinct_take_drop:
  "distinct ovs \<Longrightarrow> w \<in> set (take ind ovs) \<Longrightarrow> w \<notin> set (drop ind ovs)"
  by (metis append_take_drop_id distinct_append disjoint_iff)

lemma any_holds_char:
  fixes v :: var
  shows "distinct ovs \<Longrightarrow> v \<notin> set ovs \<Longrightarrow> set ovs \<subseteq> set (scope c) \<Longrightarrow>
     set (scope c) \<subseteq> insert v (set ovs) \<Longrightarrow> \<forall>u\<in>set ovs. map_of ds u \<noteq> None \<Longrightarrow>
     ind \<le> length ovs \<Longrightarrow> assigned = rev (take ind ovs) \<Longrightarrow>
     \<forall>w\<in>insert v (set (take ind ovs)). env w \<noteq> None \<Longrightarrow>
     \<exists>env'. any_holds orc ds c env ovs ind assigned = Inr (completable ds c (drop ind ovs) env, env') \<and>
            (\<forall>w. w \<notin> set (drop ind ovs) \<longrightarrow> env' w = env w)"
  and "distinct ovs \<Longrightarrow> v \<notin> set ovs \<Longrightarrow> set ovs \<subseteq> set (scope c) \<Longrightarrow>
     set (scope c) \<subseteq> insert v (set ovs) \<Longrightarrow> \<forall>u\<in>set ovs. map_of ds u \<noteq> None \<Longrightarrow>
     ind < length ovs \<Longrightarrow> u = ovs ! ind \<Longrightarrow> assigned = rev (take ind ovs) \<Longrightarrow>
     \<forall>w\<in>insert v (set (take ind ovs)). env w \<noteq> None \<Longrightarrow>
     \<exists>env'. any_holds_for orc ds c env ovs ind assigned u vals =
              Inr ((\<exists>val\<in>set vals. completable ds c (drop (Suc ind) ovs) (env(u \<mapsto> val))), env') \<and>
            (\<forall>w. w \<notin> set (drop ind ovs) \<longrightarrow> env' w = env w)"
  supply split_paired_All [simp del] split_paired_Ex [simp del] any_holds.simps [simp del]
proof (induction orc ds c env ovs ind assigned and orc ds c env ovs ind assigned u vals
    rule: any_holds_any_holds_for.induct)
  case (1 orc ds c env ovs ind assigned)
  show ?case
  proof (cases "ind = length ovs")
    case True
    with "1.prems" have "\<forall>p\<in>set (scope c). env p \<noteq> None" by auto
    then obtain b where b: "holds c env = Inr b" by (blast dest: holds_defined)
    then have "completable ds c (drop ind ovs) env = b"
      using True by (cases b) (simp_all add: completable_Nil)
    with b True show ?thesis by (subst any_holds.simps) simp
  next
    case False
    with "1.prems" have lt: "ind < length ovs" by simp
    then have "ovs ! ind \<in> set ovs" by simp
    with "1.prems" obtain d where d: "map_of ds (ovs ! ind) = Some d" by blast
    then have lk: "lookup ds (ovs ! ind) = Inr d" by simp
    have nl: "\<not> length ovs < ind" using lt by simp
    from "1.IH" [OF False nl lk "1.prems"(1-5) lt refl "1.prems"(7,8)]
    obtain env' where r: "any_holds_for orc ds c env ovs ind assigned (ovs ! ind) (iter orc d) =
        Inr ((\<exists>val\<in>set (iter orc d). completable ds c (drop (Suc ind) ovs) (env(ovs ! ind \<mapsto> val))), env')"
      and agree: "\<forall>w. w \<notin> set (drop ind ovs) \<longrightarrow> env' w = env w"
      by blast
    have "ovs ! ind \<notin> set (drop (Suc ind) ovs)"
      using "1.prems"(1) lt by (metis distinct.simps(2) distinct_drop drop_nth_Cons)
    then have "completable ds c (drop ind ovs) env \<longleftrightarrow>
        (\<exists>val\<in>elems d. completable ds c (drop (Suc ind) ovs) (env(ovs ! ind \<mapsto> val)))"
      using d lt by (simp add: drop_nth_Cons [OF lt] completable_Cons)
    moreover have "any_holds orc ds c env ovs ind assigned =
        any_holds_for orc ds c env ovs ind assigned (ovs ! ind) (iter orc d)"
      using False nl d by (subst any_holds.simps) (simp add: lookup_def)
    ultimately show ?thesis using r agree by simp
  qed
next
  case (2 orc ds c env ovs ind assigned u)
  show ?case by simp
next
  case (3 orc ds c env ovs ind assigned u val vals)
  let ?env1 = "env(u \<mapsto> val)"
  note wf = "3.prems"(1-5)
  have lt: "ind < length ovs" and u: "u = ovs ! ind" and asg: "assigned = rev (take ind ovs)"
    and defd: "\<forall>w\<in>insert v (set (take ind ovs)). env w \<noteq> None"
    using "3.prems" by simp_all
  have u_drop: "u \<in> set (drop ind ovs)" using lt u by (simp add: drop_nth_Cons)
  have u_ntake: "u \<notin> set (take ind ovs)"
    using u_drop wf(1) by (metis distinct_take_drop)
  have u_nsuc: "u \<notin> set (drop (Suc ind) ovs)"
    using wf(1) lt u by (metis distinct.simps(2) distinct_drop drop_nth_Cons)
  have drop_sub: "set (drop (Suc ind) ovs) \<subseteq> set (drop ind ovs)"
    using lt by (auto simp: drop_nth_Cons)
  have take_Suc: "u # assigned = rev (take (ind + 1) ovs)"
    using lt u asg by (simp add: take_Suc_conv_app_nth)
  have defd1: "\<forall>w\<in>insert v (set (take ind ovs)). ?env1 w \<noteq> None" using defd by simp
  have defd1': "\<forall>w\<in>insert v (set (take (ind + 1) ovs)). ?env1 w \<noteq> None"
    using defd lt u by (auto simp: take_Suc_conv_app_nth)
  have "\<forall>p\<in>set (u # assigned). ?env1 p \<noteq> None" using defd asg by simp
  then obtain b0 where b0: "is_all_unique ?env1 (u # assigned) = Inr b0"
    by (blast dest: is_all_unique_defined)
  have same: "\<And>e val'. (\<forall>w. w \<notin> set (drop ind ovs) \<longrightarrow> e w = env w) \<Longrightarrow>
      completable ds c (drop (Suc ind) ovs) (e(u \<mapsto> val')) =
      completable ds c (drop (Suc ind) ovs) (env(u \<mapsto> val'))"
  proof (rule completable_cong)
    fix e val' w
    assume e: "\<forall>w. w \<notin> set (drop ind ovs) \<longrightarrow> e w = env w" and w: "w \<notin> set (drop (Suc ind) ovs)"
    show "(e(u \<mapsto> val')) w = (env(u \<mapsto> val')) w"
    proof (cases "w = u")
      case True then show ?thesis by simp
    next
      case False
      with w lt u have "w \<notin> set (drop ind ovs)" by (simp add: drop_nth_Cons)
      with e False show ?thesis by simp
    qed
  qed
  show ?case
  proof (cases b0)
    case False
    have sub: "set (u # assigned) \<subseteq> set (scope c)"
      using wf(3) lt u asg by (auto dest: in_set_takeD)
    have out: "\<forall>p\<in>set (u # assigned). p \<notin> set (drop (Suc ind) ovs)"
    proof
      fix p assume "p \<in> set (u # assigned)"
      then consider "p = u" | "p \<in> set (take ind ovs)" using asg by auto
      then show "p \<notin> set (drop (Suc ind) ovs)"
      proof cases
        case 1 then show ?thesis using u_nsuc by simp
      next
        case 2
        then have "p \<notin> set (drop ind ovs)" using wf(1) by (metis distinct_take_drop)
        then show ?thesis using drop_sub by (metis subsetD)
      qed
    qed
    have pruned: "\<not> completable ds c (drop (Suc ind) ovs) ?env1"
      using sub out b0 False by (intro completable_pruned [of "u # assigned"]) simp_all
    from False have b0F: "b0 = False" by simp
    from "3.IH"(3) [OF b0 b0F wf lt u asg defd1]
    obtain env' where r: "any_holds_for orc ds c ?env1 ovs ind assigned u vals =
        Inr ((\<exists>val'\<in>set vals. completable ds c (drop (Suc ind) ovs) (?env1(u \<mapsto> val'))), env')"
      and agree: "\<forall>w. w \<notin> set (drop ind ovs) \<longrightarrow> env' w = ?env1 w"
      by blast
    from agree u_drop have agree': "\<forall>w. w \<notin> set (drop ind ovs) \<longrightarrow> env' w = env w"
      by (metis fun_upd_other)
    have step: "any_holds_for orc ds c env ovs ind assigned u (val # vals) =
        any_holds_for orc ds c ?env1 ovs ind assigned u vals"
      using b0 b0F by simp
    have ex: "(\<exists>val'\<in>set (val # vals). completable ds c (drop (Suc ind) ovs) (env(u \<mapsto> val'))) =
        (\<exists>val'\<in>set vals. completable ds c (drop (Suc ind) ovs) (env(u \<mapsto> val')))"
      using pruned by (metis list.set_intros(2) set_ConsD)
    have r': "any_holds_for orc ds c ?env1 ovs ind assigned u vals =
        Inr ((\<exists>val'\<in>set vals. completable ds c (drop (Suc ind) ovs) (env(u \<mapsto> val'))), env')"
      using r by simp
    show ?thesis unfolding step ex using r' agree' by blast
  next
    case True
    from True have b0T: "b0 = True" by simp
    have le: "ind + 1 \<le> length ovs" using lt by simp
    from "3.IH"(1) [OF b0 b0T wf le take_Suc defd1']
    obtain env2 where r2: "any_holds orc ds c ?env1 ovs (ind + 1) (u # assigned) =
        Inr (completable ds c (drop (ind + 1) ovs) ?env1, env2)"
      and agree2: "\<forall>w. w \<notin> set (drop (ind + 1) ovs) \<longrightarrow> env2 w = ?env1 w"
      by blast
    have agree2': "\<forall>w. w \<notin> set (drop ind ovs) \<longrightarrow> env2 w = env w"
      using agree2 drop_sub u_drop by (metis Suc_eq_plus1 fun_upd_other subsetD)
    show ?thesis
    proof (cases "completable ds c (drop (ind + 1) ovs) ?env1")
      case yes: True
      have res: "any_holds_for orc ds c env ovs ind assigned u (val # vals) = Inr (True, env2)"
        using b0 b0T r2 yes by simp
      have "completable ds c (drop (Suc ind) ovs) (env(u \<mapsto> val))"
        using yes by (metis Suc_eq_plus1)
      then have exT: "(\<exists>val'\<in>set (val # vals). completable ds c (drop (Suc ind) ovs) (env(u \<mapsto> val'))) = True"
        by (metis list.set_intros(1))
      show ?thesis unfolding res exT using agree2' by blast
    next
      case no: False
      have defd2: "\<forall>w\<in>insert v (set (take ind ovs)). env2 w \<noteq> None"
      proof
        fix w assume w: "w \<in> insert v (set (take ind ovs))"
        then have "w \<notin> set (drop ind ovs)"
          using wf(1,2) by (metis distinct_take_drop in_set_dropD insertE)
        with agree2' have "env2 w = env w" by blast
        moreover from defd w have "env w \<noteq> None" by blast
        ultimately show "env2 w \<noteq> None" by metis
      qed
      from "3.IH"(2) [OF b0 b0T r2 refl no wf lt u asg defd2]
      obtain env' where r: "any_holds_for orc ds c env2 ovs ind assigned u vals =
          Inr ((\<exists>val'\<in>set vals. completable ds c (drop (Suc ind) ovs) (env2(u \<mapsto> val'))), env')"
        and agree: "\<forall>w. w \<notin> set (drop ind ovs) \<longrightarrow> env' w = env2 w"
        by blast
      have "(\<exists>val'\<in>set vals. completable ds c (drop (Suc ind) ovs) (env2(u \<mapsto> val'))) =
            (\<exists>val'\<in>set vals. completable ds c (drop (Suc ind) ovs) (env(u \<mapsto> val')))"
        using same [OF agree2'] by simp
      also have "\<dots> = (\<exists>val'\<in>set (val # vals). completable ds c (drop (Suc ind) ovs) (env(u \<mapsto> val')))"
        using no by (metis Suc_eq_plus1 list.set_intros(2) set_ConsD)
      finally have ex: "(\<exists>val'\<in>set (val # vals). completable ds c (drop (Suc ind) ovs) (env(u \<mapsto> val'))) =
          (\<exists>val'\<in>set vals. completable ds c (drop (Suc ind) ovs) (env2(u \<mapsto> val')))"
        by simp
      have step: "any_holds_for orc ds c env ovs ind assigned u (val # vals) =
          any_holds_for orc ds c env2 ovs ind assigned u vals"
        using b0 b0T r2 no by simp
      have "\<forall>w. w \<notin> set (drop ind ovs) \<longrightarrow> env' w = env w"
        using agree agree2' by simp
      then show ?thesis unfolding step ex using r by blast
    qed
  qed
qed


lemma any_holds_start:
  assumes "distinct ovs" "v \<notin> set ovs" "set ovs \<subseteq> set (scope c)"
    "set (scope c) \<subseteq> insert v (set ovs)" "\<forall>u\<in>set ovs. map_of ds u \<noteq> None"
  shows "\<exists>env'. any_holds orc ds c [v \<mapsto> x] ovs 0 [] = Inr (completable ds c ovs [v \<mapsto> x], env')"
proof -
  have "\<exists>env'. any_holds orc ds c [v \<mapsto> x] ovs 0 [] =
            Inr (completable ds c (drop 0 ovs) [v \<mapsto> x], env') \<and>
          (\<forall>w. w \<notin> set (drop 0 ovs) \<longrightarrow> env' w = [v \<mapsto> x] w)"
    by (rule any_holds_char(1) [OF assms]) simp_all
  then show ?thesis by auto
qed

lemma revise_char:
  assumes "distinct ovs" "v \<notin> set ovs" "set ovs \<subseteq> set (scope c)"
    "set (scope c) \<subseteq> insert v (set ovs)" "\<forall>u\<in>set ovs. map_of ds u \<noteq> None"
  shows "revise orc ds c v ovs vals = Inr (filter (\<lambda>x. completable ds c ovs [v \<mapsto> x]) vals)"
proof -
  define P where "P = (\<lambda>x. completable ds c ovs [v \<mapsto> x])"
  have step: "\<exists>env'. any_holds orc ds c [v \<mapsto> x] ovs 0 [] = Inr (P x, env')" for x
    unfolding P_def by (rule any_holds_start [OF assms])
  have "revise orc ds c v ovs vals = Inr (filter P vals)"
  proof (induction vals)
    case Nil
    show ?case by simp
  next
    case (Cons x vals)
    from step [of x] obtain env'
      where "any_holds orc ds c [v \<mapsto> x] ovs 0 [] = Inr (P x, env')" by blast
    with Cons show ?case by simp
  qed
  then show ?thesis unfolding P_def .
qed

lemma others_wf:
  assumes "distinct (scope c)"
  shows "distinct (filter (\<lambda>ov. ov \<noteq> v) (scope c))"
    and "v \<notin> set (filter (\<lambda>ov. ov \<noteq> v) (scope c))"
    and "set (filter (\<lambda>ov. ov \<noteq> v) (scope c)) \<subseteq> set (scope c)"
    and "set (scope c) \<subseteq> insert v (set (filter (\<lambda>ov. ov \<noteq> v) (scope c)))"
  using assms by auto

lemma revise_scope:
  assumes "distinct (scope c)" and "\<forall>u\<in>set (scope c). u \<noteq> v \<longrightarrow> map_of ds u \<noteq> None"
  shows "revise orc ds c v (filter (\<lambda>ov. ov \<noteq> v) (scope c)) vals =
     Inr (filter (\<lambda>x. completable ds c (filter (\<lambda>ov. ov \<noteq> v) (scope c)) [v \<mapsto> x]) vals)"
proof -
  have "\<forall>u\<in>set (filter (\<lambda>ov. ov \<noteq> v) (scope c)). map_of ds u \<noteq> None"
    using assms(2) by simp
  with others_wf [OF assms(1), of v] show ?thesis by (rule revise_char)
qed

text \<open>
  C6. A revise step on the arc \<open>(v, c)\<close>, where the scope of \<open>c\<close> has no repeated variable
  and every other variable of the scope has a domain, raises nothing, and the new domain
  holds exactly the values \<open>x\<close> of the domain of \<open>v\<close> for which some choice of one value for
  each variable of the scope other than \<open>v\<close>, drawn from that variable's domain, extends
  \<open>{v: x}\<close> to an assignment that satisfies \<open>c\<close>.
\<close>

theorem revise_keeps_supported:
  assumes "distinct (scope c)"
    and "\<forall>u\<in>set (scope c). u \<noteq> v \<longrightarrow> map_of ds u \<noteq> None"
  shows "\<exists>keep. revise orc ds c v (filter (\<lambda>ov. ov \<noteq> v) (scope c)) (iter orc d) = Inr keep \<and>
     (\<forall>x. x \<in> elems (PySet (fset_of_list keep)) \<longleftrightarrow>
        x \<in> elems d \<and> completable ds c (filter (\<lambda>ov. ov \<noteq> v) (scope c)) [v \<mapsto> x])"
  using revise_scope [OF assms, of orc "iter orc d"]
  by (auto simp: fset_of_list.rep_eq)

lemma tiny_revise:
  "revise first_choice tiny_domains tiny_constraint (0, 0)
     (filter (\<lambda>ov. ov \<noteq> (0, 0)) (scope tiny_constraint)) (iter first_choice (PyList [1, 2])) = Inr [1]"
  by code_simp

theorem revise_keeps_supported_witness:
  "distinct (scope tiny_constraint) \<and>
   scope tiny_constraint = [(0, 0), (0, 1)] \<and> map_of tiny_domains (0, 1) \<noteq> None \<and>
   revise first_choice tiny_domains tiny_constraint (0, 0)
     (filter (\<lambda>ov. ov \<noteq> (0, 0)) (scope tiny_constraint)) (iter first_choice (PyList [1, 2])) = Inr [1] \<and>
   completable tiny_domains tiny_constraint (filter (\<lambda>ov. ov \<noteq> (0, 0)) (scope tiny_constraint))
     [(0, 0) \<mapsto> 1] \<and>
   \<not> completable tiny_domains tiny_constraint (filter (\<lambda>ov. ov \<noteq> (0, 0)) (scope tiny_constraint))
     [(0, 0) \<mapsto> 2]"
proof -
  have h1: "distinct (scope tiny_constraint)" by (simp add: tiny_constraint_def)
  have h2: "\<forall>u\<in>set (scope tiny_constraint). u \<noteq> (0, 0) \<longrightarrow> map_of tiny_domains u \<noteq> None"
    by (simp add: tiny_constraint_def tiny_domains_def)
  from revise_keeps_supported [OF h1 h2, of first_choice "PyList [1, 2]"] tiny_revise
  have "\<forall>x. x \<in> elems (PySet (fset_of_list [1])) \<longleftrightarrow>
        x \<in> elems (PyList [1, 2]) \<and>
        completable tiny_domains tiny_constraint (filter (\<lambda>ov. ov \<noteq> (0, 0)) (scope tiny_constraint))
          [(0, 0) \<mapsto> x]"
    by simp
  from this [rule_format, of 1] this [rule_format, of 2] h1 tiny_revise
  show ?thesis by (simp add: tiny_constraint_def tiny_domains_def)
qed


subsection \<open>Arc consistency\<close>

declare split_paired_All [simp del] split_paired_Ex [simp del]

text \<open>
  \<open>supported ds v c x\<close>: the value \<open>x\<close> of \<open>v\<close> has a support in \<open>c\<close>, as a revise step
  tests it. An arc is settled when the domain of its variable is a set of supported
  values.
\<close>

definition supported :: "domains \<Rightarrow> var \<Rightarrow> constraint \<Rightarrow> int \<Rightarrow> bool" where
  "supported ds v c x = completable ds c (filter (\<lambda>ov. ov \<noteq> v) (scope c)) [v \<mapsto> x]"

definition arc_ok :: "domains \<Rightarrow> arc \<Rightarrow> bool" where
  "arc_ok ds a = (\<exists>S. map_of ds (fst a) = Some (PySet S) \<and> (\<forall>x\<in>fset S. supported ds (fst a) (snd a) x))"

definition arcs_of :: "csp \<Rightarrow> arc set" where
  "arcs_of cs = {(v, c). c \<in> set (constraints cs) \<and> v \<in> set (scope c)}"

definition well_formed :: "csp \<Rightarrow> domains \<Rightarrow> bool" where
  "well_formed cs ds \<longleftrightarrow>
     (\<forall>c\<in>set (constraints cs). distinct (scope c) \<and>
        (\<forall>u\<in>set (scope c). map_of ds u \<noteq> None \<and> map_of (var_to_const cs) u \<noteq> None)) \<and>
     (\<forall>u ncs. map_of (var_to_const cs) u = Some ncs \<longrightarrow>
        set ncs = {c'\<in>set (constraints cs). u \<in> set (scope c')})"

definition pending_ok :: "csp \<Rightarrow> domains \<Rightarrow> arc list \<Rightarrow> bool" where
  "pending_ok cs ds to_do \<longleftrightarrow>
     set to_do \<subseteq> arcs_of cs \<and> (\<forall>a\<in>arcs_of cs. a \<notin> set to_do \<longrightarrow> arc_ok ds a)"

lemma set_all_arcs [simp]: "set (all_arcs cs) = arcs_of cs"
  by (auto simp: all_arcs_def arcs_of_def)

lemma completable_domains_cong:
  assumes "\<And>u. u \<in> set vs \<Longrightarrow> map_of ds' u = map_of ds u"
  shows "completable ds' c vs env = completable ds c vs env"
  unfolding completable_def using assms by auto

lemma supported_cong:
  assumes "\<And>u. u \<in> set (scope c) \<Longrightarrow> u \<noteq> v \<Longrightarrow> map_of ds' u = map_of ds u"
  shows "supported ds' v c x = supported ds v c x"
  unfolding supported_def using assms by (intro completable_domains_cong) auto

lemma supported_witness:
  "supported ds v c x \<longleftrightarrow>
     (\<exists>\<sigma>. \<sigma> v = Some x \<and> (\<forall>u. u \<noteq> v \<and> u \<notin> set (scope c) \<longrightarrow> \<sigma> u = None) \<and>
          (\<forall>u\<in>set (scope c). u \<noteq> v \<longrightarrow> (\<exists>d y. map_of ds u = Some d \<and> \<sigma> u = Some y \<and> y \<in> elems d)) \<and>
          holds c \<sigma> = Inr True)"
proof -
  have "\<And>\<sigma>. (\<forall>u. u \<notin> set (filter (\<lambda>ov. ov \<noteq> v) (scope c)) \<longrightarrow> \<sigma> u = [v \<mapsto> x] u) \<longleftrightarrow>
      (\<sigma> v = Some x \<and> (\<forall>u. u \<noteq> v \<and> u \<notin> set (scope c) \<longrightarrow> \<sigma> u = None))"
    by (auto simp: fun_upd_def)
  then show ?thesis unfolding supported_def completable_def by auto
qed

lemma select_arc_set:
  assumes "to_do \<noteq> []" and "select_arc orc ds to_do = (a, to_do1)"
  shows "a \<in> set to_do" and "set to_do1 \<subseteq> set to_do" and "set to_do \<subseteq> insert a (set to_do1)"
proof -
  define i where "i = arc_pick orc ds to_do mod length to_do"
  have i: "i < length to_do" using assms(1) by (simp add: i_def)
  have a: "a = to_do ! i" and t: "to_do1 = take i to_do @ drop (Suc i) to_do"
    using assms(2) by (simp_all add: select_arc_def i_def Let_def)
  show "a \<in> set to_do" using a i by simp
  show "set to_do1 \<subseteq> set to_do" unfolding t by (auto dest: in_set_takeD in_set_dropD)
  have "to_do = take i to_do @ a # drop (Suc i) to_do"
    using i a by (simp add: id_take_nth_drop [symmetric])
  then have "set to_do = set (take i to_do) \<union> insert a (set (drop (Suc i) to_do))"
    by (metis set_append list.simps(15))
  then show "set to_do \<subseteq> insert a (set to_do1)" unfolding t by auto
qed

lemma new_to_do_set:
  assumes "map_of (var_to_const cs) v = Some ncs"
  shows "\<exists>add. new_to_do cs v const = Inr add \<and>
     set add = {(n, c2). c2 \<in> set ncs \<and> Some c2 \<noteq> const \<and> n \<in> set (scope c2) \<and> n \<noteq> v}"
  using assms by (auto simp: new_to_do_def)


lemma well_formed_update:
  "well_formed cs ds \<Longrightarrow> well_formed cs (AList.update v d' ds)"
  unfolding well_formed_def by (simp add: update_conv')

lemma arcs_ofD:
  "(v, c) \<in> arcs_of cs \<Longrightarrow> c \<in> set (constraints cs) \<and> v \<in> set (scope c)"
  by (simp add: arcs_of_def)

lemma step_changed:
  assumes wf: "well_formed cs ds" and pend: "pending_ok cs ds to_do"
    and ne: "to_do \<noteq> []" and sel: "select_arc orc ds to_do = ((v, c), to_do1)"
    and lk: "map_of ds v = Some d"
    and new: "\<And>x. x \<in> fset N \<longleftrightarrow> x \<in> elems d \<and> supported ds v c x"
    and nt: "new_to_do cs v (Some c) = Inr add"
  shows "pending_ok cs (AList.update v (PySet N) ds) (to_do1 @ filter (\<lambda>a. a \<notin> set to_do1) add)"
proof -
  let ?ds' = "AList.update v (PySet N) ds"
  let ?to_do' = "to_do1 @ filter (\<lambda>a. a \<notin> set to_do1) add"
  note sa = select_arc_set [OF ne sel]
  have m': "map_of ?ds' = (map_of ds)(v \<mapsto> PySet N)" by (rule update_conv')
  from pend have sub: "set to_do \<subseteq> arcs_of cs"
    and ok: "\<And>a. a \<in> arcs_of cs \<Longrightarrow> a \<notin> set to_do \<Longrightarrow> arc_ok ds a"
    by (auto simp: pending_ok_def)
  from sa(1) sub have vc: "c \<in> set (constraints cs)" "v \<in> set (scope c)"
    by (auto dest: arcs_ofD)
  with wf obtain ncs where ncs: "map_of (var_to_const cs) v = Some ncs"
    "set ncs = {c'\<in>set (constraints cs). v \<in> set (scope c')}"
    unfolding well_formed_def by blast
  from new_to_do_set [OF ncs(1), of "Some c"] nt
  have add: "set add = {(n, c2). c2 \<in> set ncs \<and> c2 \<noteq> c \<and> n \<in> set (scope c2) \<and> n \<noteq> v}"
    by auto
  have set': "set ?to_do' = set to_do1 \<union> set add" by auto
  have "set add \<subseteq> arcs_of cs" using add ncs(2) by (auto simp: arcs_of_def)
  with sub sa(2) have sub': "set ?to_do' \<subseteq> arcs_of cs" unfolding set' by blast
  have "arc_ok ?ds' a" if a: "a \<in> arcs_of cs" and out: "a \<notin> set ?to_do'" for a
  proof -
    obtain n c2 where a_eq: "a = (n, c2)" by (cases a)
    from a a_eq have n: "c2 \<in> set (constraints cs)" "n \<in> set (scope c2)"
      by (auto dest: arcs_ofD)
    from out have out1: "a \<notin> set to_do1" and out2: "a \<notin> set add" unfolding set' by auto
    show ?thesis
    proof (cases "n = v")
      case True
      have sup: "supported ds v c2 x" if "x \<in> fset N" for x
      proof (cases "c2 = c")
        case True
        with new that show ?thesis by simp
      next
        case False
        with a_eq \<open>n = v\<close> out1 sa(3) have "a \<notin> set to_do" by auto
        from ok [OF a this] a_eq \<open>n = v\<close> lk obtain S where "d = PySet S"
          "\<forall>x\<in>fset S. supported ds v c2 x"
          by (auto simp: arc_ok_def)
        with new that show ?thesis by auto
      qed
      have "supported ?ds' v c2 x = supported ds v c2 x" for x
        by (rule supported_cong) (simp add: m')
      with sup True a_eq show ?thesis by (auto simp: arc_ok_def m')
    next
      case False
      with a_eq out1 sa(3) have "a \<notin> set to_do" by auto
      from ok [OF a this] a_eq obtain S where S: "map_of ds n = Some (PySet S)"
        "\<forall>x\<in>fset S. supported ds n c2 x"
        by (auto simp: arc_ok_def)
      have mn: "map_of ?ds' n = Some (PySet S)" using S(1) False by (simp add: m')
      have "supported ?ds' n c2 x" if x: "x \<in> fset S" for x
      proof (cases "v \<in> set (scope c2)")
        case notin: False
        have "supported ?ds' n c2 x = supported ds n c2 x"
          by (rule supported_cong) (use notin in \<open>auto simp: m'\<close>)
        with S(2) x show ?thesis by simp
      next
        case vin: True
        with n ncs(2) have "c2 \<in> set ncs" by simp
        with out2 a_eq add n False have c2: "c2 = c" by auto
        from S(2) x obtain \<sigma> where s: "\<sigma> n = Some x"
          "\<forall>u. u \<noteq> n \<and> u \<notin> set (scope c2) \<longrightarrow> \<sigma> u = None"
          "\<forall>u\<in>set (scope c2). u \<noteq> n \<longrightarrow> (\<exists>d y. map_of ds u = Some d \<and> \<sigma> u = Some y \<and> y \<in> elems d)"
          "holds c2 \<sigma> = Inr True"
          unfolding supported_witness by blast
        from s(3) vin False lk obtain y where y: "\<sigma> v = Some y" "y \<in> elems d"
          by (metis option.inject)
        have "supported ds v c y"
          unfolding supported_witness
        proof (intro exI [of _ \<sigma>] conjI ballI allI impI)
          show "\<sigma> v = Some y" by (rule y(1))
          show "\<sigma> u = None" if "u \<noteq> v \<and> u \<notin> set (scope c)" for u
            using that s(2) n c2 by metis
          show "\<exists>d y. map_of ds u = Some d \<and> \<sigma> u = Some y \<and> y \<in> elems d"
            if "u \<in> set (scope c)" "u \<noteq> v" for u
          proof (cases "u = n")
            case True
            with S(1) s(1) x show ?thesis by auto
          next
            case False
            with that s(3) c2 show ?thesis by blast
          qed
          show "holds c \<sigma> = Inr True" using s(4) c2 by simp
        qed
        with new y(2) have yN: "y \<in> fset N" by simp
        show ?thesis
          unfolding supported_witness
        proof (intro exI [of _ \<sigma>] conjI ballI allI impI)
          show "\<sigma> n = Some x" by (rule s(1))
          show "\<sigma> u = None" if "u \<noteq> n \<and> u \<notin> set (scope c2)" for u
            using that s(2) by blast
          show "\<exists>d y. map_of ?ds' u = Some d \<and> \<sigma> u = Some y \<and> y \<in> elems d"
            if "u \<in> set (scope c2)" "u \<noteq> n" for u
          proof (cases "u = v")
            case True
            with y(1) yN show ?thesis by (auto simp: m')
          next
            case False
            with that s(3) show ?thesis by (auto simp: m')
          qed
          show "holds c2 \<sigma> = Inr True" by (rule s(4))
        qed
      qed
      with mn a_eq show ?thesis by (auto simp: arc_ok_def)
    qed
  qed
  with sub' show ?thesis unfolding pending_ok_def by blast
qed

lemma step_same:
  assumes pend: "pending_ok cs ds to_do"
    and ne: "to_do \<noteq> []" and sel: "select_arc orc ds to_do = ((v, c), to_do1)"
    and lk: "map_of ds v = Some (PySet N)"
    and new: "\<And>x. x \<in> fset N \<longleftrightarrow> x \<in> fset N \<and> supported ds v c x"
  shows "pending_ok cs ds to_do1"
proof -
  note sa = select_arc_set [OF ne sel]
  from pend have sub: "set to_do \<subseteq> arcs_of cs"
    and ok: "\<And>a. a \<in> arcs_of cs \<Longrightarrow> a \<notin> set to_do \<Longrightarrow> arc_ok ds a"
    by (auto simp: pending_ok_def)
  have "arc_ok ds a" if a: "a \<in> arcs_of cs" and out: "a \<notin> set to_do1" for a
  proof (cases "a = (v, c)")
    case True
    with lk new show ?thesis by (auto simp: arc_ok_def)
  next
    case False
    with out sa(3) have "a \<notin> set to_do" by auto
    with a show ?thesis by (rule ok)
  qed
  with sub sa(2) show ?thesis unfolding pending_ok_def by blast
qed


lemma revise_supported:
  assumes wf: "well_formed cs ds" and arc: "(v, c) \<in> arcs_of cs"
  shows "revise orc ds c v (filter (\<lambda>ov. ov \<noteq> v) (scope c)) vals = Inr (filter (supported ds v c) vals)"
proof -
  from arc have c: "c \<in> set (constraints cs)" by (auto dest: arcs_ofD)
  with wf have "distinct (scope c)" "\<forall>u\<in>set (scope c). u \<noteq> v \<longrightarrow> map_of ds u \<noteq> None"
    unfolding well_formed_def by auto
  from revise_scope [OF this, of orc vals] show ?thesis
    unfolding supported_def .
qed

lemma mac_loop_consistent:
  "well_formed cs ds \<Longrightarrow> pending_ok cs ds to_do \<Longrightarrow>
   \<exists>ds'. make_arc_consistent_loop orc cs ds to_do = Inr ds' \<and> pending_ok cs ds' [] \<and>
         well_formed cs ds'"
proof (induction orc cs ds to_do rule: make_arc_consistent_loop.induct)
  case (1 orc cs ds to_do)
  note wf = "1.prems"(1) and pend = "1.prems"(2)
  show ?case
  proof (cases "to_do = []")
    case True
    with wf pend show ?thesis by (simp add: make_arc_consistent_loop.simps)
  next
    case ne: False
    obtain v c to_do1 where sel: "select_arc orc ds to_do = ((v, c), to_do1)"
      by (metis prod.exhaust)
    note sa = select_arc_set [OF ne sel]
    from pend sa(1) have arc: "(v, c) \<in> arcs_of cs" by (auto simp: pending_ok_def)
    then have vc: "c \<in> set (constraints cs)" "v \<in> set (scope c)" by (auto dest: arcs_ofD)
    with wf obtain d ncs where d: "map_of ds v = Some d"
      and ncs: "map_of (var_to_const cs) v = Some ncs"
      unfolding well_formed_def by blast
    then have lk: "lookup ds v = Inr d" by simp
    define keep where "keep = filter (supported ds v c) (iter orc d)"
    have rev: "revise orc ds c v (filter (\<lambda>ov. ov \<noteq> v) (scope c)) (iter orc d) = Inr keep"
      unfolding keep_def by (rule revise_supported [OF wf arc])
    have new: "x \<in> fset (fset_of_list keep) \<longleftrightarrow> x \<in> elems d \<and> supported ds v c x" for x
      by (auto simp: keep_def fset_of_list.rep_eq)
    from new_to_do_set [OF ncs, of "Some c"] obtain add
      where nt: "new_to_do cs v (Some c) = Inr add" by blast
    show ?thesis
    proof (cases "PySet (fset_of_list keep) \<noteq> d")
      case True
      have unfold: "make_arc_consistent_loop orc cs ds to_do =
          make_arc_consistent_loop orc cs (AList.update v (PySet (fset_of_list keep)) ds)
            (to_do1 @ filter (\<lambda>a. a \<notin> set to_do1) add)"
        using ne sel d rev True nt
        by (subst make_arc_consistent_loop.simps) (simp add: lookup_def)
      have wf': "well_formed cs (AList.update v (PySet (fset_of_list keep)) ds)"
        using wf by (rule well_formed_update)
      have pend': "pending_ok cs (AList.update v (PySet (fset_of_list keep)) ds)
          (to_do1 @ filter (\<lambda>a. a \<notin> set to_do1) add)"
        using wf pend ne sel d new nt by (rule step_changed)
      from "1.IH"(1) [OF ne sel [symmetric] refl lk rev True nt wf' pend'] unfold
      show ?thesis by simp
    next
      case False
      then have eq: "d = PySet (fset_of_list keep)" by simp
      have unfold: "make_arc_consistent_loop orc cs ds to_do =
          make_arc_consistent_loop orc cs ds to_do1"
        using ne sel d rev False
        by (subst make_arc_consistent_loop.simps) (simp add: lookup_def)
      have lk': "map_of ds v = Some (PySet (fset_of_list keep))" using d eq by simp
      have new': "x \<in> fset (fset_of_list keep) \<longleftrightarrow>
          x \<in> fset (fset_of_list keep) \<and> supported ds v c x" for x
        using new [of x] eq by (metis elems.simps(2))
      have pend': "pending_ok cs ds to_do1"
        using pend ne sel lk' new' by (rule step_same)
      from "1.IH"(2) [OF ne sel [symmetric] refl lk rev False wf pend'] unfold
      show ?thesis by simp
    qed
  qed
qed


lemma fset_of_list_iter [simp]: "fset_of_list (iter orc (PySet S)) = S"
  by (rule fset_eqI) (simp add: fset_of_list_elem)

lemma mac_loop_fixpoint:
  "well_formed cs ds \<Longrightarrow> pending_ok cs ds [] \<Longrightarrow> set to_do \<subseteq> arcs_of cs \<Longrightarrow>
   make_arc_consistent_loop orc cs ds to_do = Inr ds"
proof (induction orc cs ds to_do rule: make_arc_consistent_loop.induct)
  case (1 orc cs ds to_do)
  note wf = "1.prems"(1) and ac = "1.prems"(2) and sub = "1.prems"(3)
  show ?case
  proof (cases "to_do = []")
    case True
    then show ?thesis by (simp add: make_arc_consistent_loop.simps)
  next
    case ne: False
    obtain v c to_do1 where sel: "select_arc orc ds to_do = ((v, c), to_do1)"
      by (metis prod.exhaust)
    note sa = select_arc_set [OF ne sel]
    from sub sa(1) have arc: "(v, c) \<in> arcs_of cs" by auto
    with ac have "arc_ok ds (v, c)" by (simp add: pending_ok_def)
    then obtain S where S: "map_of ds v = Some (PySet S)" "\<forall>x\<in>fset S. supported ds v c x"
      by (auto simp: arc_ok_def)
    then have lk: "lookup ds v = Inr (PySet S)" by simp
    have all: "filter (supported ds v c) (iter orc (PySet S)) = iter orc (PySet S)"
      using S(2) by (intro filter_True) (simp del: iter.simps)
    have rev: "revise orc ds c v (filter (\<lambda>ov. ov \<noteq> v) (scope c)) (iter orc (PySet S)) =
        Inr (iter orc (PySet S))"
      using revise_supported [OF wf arc, of orc "iter orc (PySet S)"] all by simp
    have same: "\<not> PySet (fset_of_list (iter orc (PySet S))) \<noteq> PySet S"
      by (simp del: iter.simps)
    have unfold: "make_arc_consistent_loop orc cs ds to_do =
        make_arc_consistent_loop orc cs ds to_do1"
      using ne sel S(1) rev same
      by (subst make_arc_consistent_loop.simps) (simp add: lookup_def del: iter.simps)
    have sub1: "set to_do1 \<subseteq> arcs_of cs" using sa(2) sub by blast
    from "1.IH"(2) [OF ne sel [symmetric] refl lk rev same wf ac sub1] unfold
    show ?thesis by simp
  qed
qed

lemma pending_all: "pending_ok cs ds (all_arcs cs)"
  by (simp add: pending_ok_def)

subsection \<open>The problems that \<open>CSP_init\<close> builds\<close>

lemma register_scope_Inr:
  "register_scope con vs m = Inr m' \<Longrightarrow>
   (\<forall>v\<in>set vs. map_of m v \<noteq> None) \<and>
   (\<forall>u. map_of m' u = None \<longleftrightarrow> map_of m u = None) \<and>
   (\<forall>u cs'. map_of m' u = Some cs' \<longrightarrow>
      (\<exists>cs0. map_of m u = Some cs0 \<and> set cs' = (if u \<in> set vs then insert con (set cs0) else set cs0)))"
proof (induction con vs m arbitrary: m' rule: register_scope.induct)
  case (1 con m)
  then show ?case by simp
next
  case (2 con v vs m)
  from "2.prems" obtain cs where cs: "map_of m v = Some cs"
    and rec: "register_scope con vs (AList.update v (List.insert con cs) m) = Inr m'"
    by (auto split: option.splits)
  note IH = "2.IH" [OF cs rec]
  have m1: "map_of (AList.update v (List.insert con cs) m) = (map_of m)(v \<mapsto> List.insert con cs)"
    by (rule update_conv')
  show ?case
  proof (intro conjI allI ballI impI)
    fix u assume "u \<in> set (v # vs)"
    with IH cs show "map_of m u \<noteq> None" by (auto simp: m1 split: if_splits)
  next
    fix u show "map_of m' u = None \<longleftrightarrow> map_of m u = None"
      using IH cs by (auto simp: m1 split: if_splits)
  next
    fix u cs' assume "map_of m' u = Some cs'"
    with IH obtain cs1 where c1: "map_of (AList.update v (List.insert con cs) m) u = Some cs1"
      "set cs' = (if u \<in> set vs then insert con (set cs1) else set cs1)"
      by blast
    show "\<exists>cs0. map_of m u = Some cs0 \<and>
        set cs' = (if u \<in> set (v # vs) then insert con (set cs0) else set cs0)"
    proof (cases "u = v")
      case True
      with c1 cs show ?thesis by (auto simp: m1)
    next
      case False
      with c1 show ?thesis by (auto simp: m1)
    qed
  qed
qed

lemma register_all_Inr:
  "register_all cons m = Inr m' \<Longrightarrow>
   (\<forall>c\<in>set cons. \<forall>v\<in>set (scope c). map_of m v \<noteq> None) \<and>
   (\<forall>u. map_of m' u = None \<longleftrightarrow> map_of m u = None) \<and>
   (\<forall>u cs'. map_of m' u = Some cs' \<longrightarrow>
      (\<exists>cs0. map_of m u = Some cs0 \<and> set cs' = set cs0 \<union> {c\<in>set cons. u \<in> set (scope c)}))"
proof (induction cons m arbitrary: m' rule: register_all.induct)
  case (1 m)
  then show ?case by simp
next
  case (2 con cons m)
  from "2.prems" obtain m1 where m1: "register_scope con (scope con) m = Inr m1"
    and rec: "register_all cons m1 = Inr m'"
    by (auto split: sum.splits)
  note A = register_scope_Inr [OF m1] and B = "2.IH" [OF m1 rec]
  show ?case
  proof (intro conjI allI ballI impI)
    fix c v assume "c \<in> set (con # cons)" "v \<in> set (scope c)"
    with A B show "map_of m v \<noteq> None" by (metis set_ConsD)
  next
    fix u show "map_of m' u = None \<longleftrightarrow> map_of m u = None" using A B by metis
  next
    fix u cs' assume "map_of m' u = Some cs'"
    with B obtain cs1 where c1: "map_of m1 u = Some cs1"
      "set cs' = set cs1 \<union> {c\<in>set cons. u \<in> set (scope c)}" by blast
    with A obtain cs0 where c0: "map_of m u = Some cs0"
      "set cs1 = (if u \<in> set (scope con) then insert con (set cs0) else set cs0)" by blast
    from c1(2) c0(2) have "set cs' = set cs0 \<union> {c\<in>set (con # cons). u \<in> set (scope c)}"
      by auto
    with c0(1) show "\<exists>cs0. map_of m u = Some cs0 \<and>
        set cs' = set cs0 \<union> {c\<in>set (con # cons). u \<in> set (scope c)}" by blast
  qed
qed

lemma map_of_empty_lists:
  "map_of (map (\<lambda>v. (v, [])) vs) u = (if u \<in> set vs then Some [] else None)"
  by (induction vs) auto

lemma CSP_init_fields:
  assumes "CSP_init orc ds cons = Inr cs"
  shows "domains cs = ds" "constraints cs = cons" "set (variables cs) = fst ` set ds"
    "distinct (map fst ds) \<Longrightarrow> distinct (variables cs)"
  using assms by (auto simp: CSP_init_def Let_def rev_image_eqI split: sum.splits)

lemma CSP_init_well_formed:
  assumes init: "CSP_init orc ds cons = Inr cs" and dist: "\<forall>c\<in>set cons. distinct (scope c)"
  shows "well_formed cs ds"
proof -
  define vs where "vs = py_iter (var_order orc) (map fst ds)"
  from init obtain m where m: "register_all cons (map (\<lambda>v. (v, [])) vs) = Inr m"
    and cs: "cs = \<lparr>variables = vs, domains = ds, constraints = cons, var_to_const = m\<rparr>"
    by (auto simp: CSP_init_def Let_def vs_def split: sum.splits)
  note R = register_all_Inr [OF m]
  have keys: "map_of ds u \<noteq> None \<longleftrightarrow> u \<in> set vs" for u
    unfolding vs_def set_py_iter by (metis map_of_eq_None_iff set_map)
  have reg: "set ncs = {c\<in>set cons. u \<in> set (scope c)}" if "map_of m u = Some ncs" for u ncs
  proof -
    from R that obtain cs0 where "map_of (map (\<lambda>v. (v, [])) vs) u = Some cs0"
      "set ncs = set cs0 \<union> {c\<in>set cons. u \<in> set (scope c)}" by blast
    then show ?thesis by (auto simp: map_of_empty_lists split: if_splits)
  qed
  show ?thesis
    unfolding well_formed_def
  proof (intro ballI conjI allI impI)
    fix c assume c: "c \<in> set (constraints cs)"
    then have c': "c \<in> set cons" by (simp add: cs)
    with dist show "distinct (scope c)" by blast
    fix u assume u: "u \<in> set (scope c)"
    with R c' have in_vs: "u \<in> set vs" by (auto simp: map_of_empty_lists split: if_splits)
    then show "map_of ds u \<noteq> None" using keys by blast
    from in_vs R show "map_of (var_to_const cs) u \<noteq> None"
      by (simp add: cs map_of_empty_lists)
  next
    fix u ncs assume "map_of (var_to_const cs) u = Some ncs"
    then show "set ncs = {c'\<in>set (constraints cs). u \<in> set (scope c')}"
      using reg [of u ncs] by (simp add: cs)
  qed
qed


subsection \<open>Propagation twice\<close>

lemma mac_consistent:
  assumes "well_formed cs (case orig of None \<Rightarrow> domains cs | Some ds \<Rightarrow> ds)"
    and "pending_ok cs (case orig of None \<Rightarrow> domains cs | Some ds \<Rightarrow> ds)
           (case to_do of None \<Rightarrow> all_arcs cs | Some arcs \<Rightarrow> arcs)"
  shows "\<exists>out. make_arc_consistent orc cs orig to_do = Inr out \<and> pending_ok cs out [] \<and>
           well_formed cs out"
  unfolding make_arc_consistent_def using assms by (rule mac_loop_consistent)

lemma mac_fixpoint:
  assumes "well_formed cs out" and "pending_ok cs out []"
  shows "make_arc_consistent orc cs (Some out) None = Inr out"
  unfolding make_arc_consistent_def using assms by (simp add: mac_loop_fixpoint)

definition tiny_seed :: "arc list" where
  "tiny_seed = [((0, 1), tiny_constraint)]"

definition tiny_partial :: domains where
  "tiny_partial = [((0, 0), PyList [1, 2]), ((0, 1), PySet {|2|}), ((0, 2), PyList [1, 2, 3])]"

text \<open>
  C5 as stated fails: the seed arcs may leave out an arc that is not consistent. With the
  one seed arc \<open>((0, 1), c)\<close> the first run only turns the domain of \<open>(0, 1)\<close> into a set;
  the second run, over all arcs, then removes 2 from the domain of \<open>(0, 0)\<close>.
\<close>

theorem propagation_idempotent_counterexample:
  "make_arc_consistent first_choice tiny_csp (Some tiny_domains) (Some tiny_seed) = Inr tiny_partial \<and>
   make_arc_consistent first_choice tiny_csp (Some tiny_partial) None = Inr tiny_consistent \<and>
   tiny_consistent \<noteq> tiny_partial"
  by code_simp

text \<open>
  C5, amended. On a well-formed problem, when every arc that is not among the seed arcs
  is already settled in \<open>D\<close> (as it is when there is no seed, and all arcs are taken),
  \<open>make_arc_consistent\<close> returns a map, and running it again on that map with no seed
  arcs, under any iteration order, returns the very same map.
\<close>

theorem propagation_idempotent:
  assumes "well_formed cs (case orig of None \<Rightarrow> domains cs | Some ds \<Rightarrow> ds)"
    and "pending_ok cs (case orig of None \<Rightarrow> domains cs | Some ds \<Rightarrow> ds)
           (case to_do of None \<Rightarrow> all_arcs cs | Some arcs \<Rightarrow> arcs)"
  shows "\<exists>out. make_arc_consistent orc cs orig to_do = Inr out \<and>
           make_arc_consistent orc' cs (Some out) None = Inr out"
proof -
  from mac_consistent [OF assms, of orc] obtain out
    where "make_arc_consistent orc cs orig to_do = Inr out" "pending_ok cs out []"
      "well_formed cs out"
    by blast
  then show ?thesis using mac_fixpoint [of cs out orc'] by blast
qed

lemma tiny_well_formed: "well_formed tiny_csp tiny_domains"
  using tiny_csp_init by (rule CSP_init_well_formed) (simp add: tiny_constraint_def)

theorem propagation_idempotent_witness:
  "well_formed tiny_csp (domains tiny_csp) \<and>
   pending_ok tiny_csp (domains tiny_csp) (all_arcs tiny_csp) \<and>
   make_arc_consistent first_choice tiny_csp None None = Inr tiny_consistent \<and>
   make_arc_consistent first_choice tiny_csp (Some tiny_consistent) None = Inr tiny_consistent"
proof -
  have d: "domains tiny_csp = tiny_domains" by (simp add: tiny_csp_def)
  have h1: "well_formed tiny_csp (case None of None \<Rightarrow> domains tiny_csp | Some ds \<Rightarrow> ds)"
    using tiny_well_formed by (simp add: d)
  have h2: "pending_ok tiny_csp (case None of None \<Rightarrow> domains tiny_csp | Some ds \<Rightarrow> ds)
      (case None of None \<Rightarrow> all_arcs tiny_csp | Some arcs \<Rightarrow> arcs)"
    by (simp add: pending_all)
  from propagation_idempotent [OF h1 h2, of first_choice first_choice] tiny_mac
  have "make_arc_consistent first_choice tiny_csp (Some tiny_consistent) None = Inr tiny_consistent"
    by auto
  with h1 h2 tiny_mac show ?thesis by simp
qed


subsection \<open>Solutions survive propagation\<close>

text \<open>
  \<open>within ds \<sigma>\<close>: the assignment \<open>\<sigma>\<close> gives every variable of \<open>ds\<close> a value of its domain.
  \<open>satisfies cs \<sigma>\<close>: every constraint of the problem holds under \<open>\<sigma>\<close>.
\<close>

definition within :: "domains \<Rightarrow> env \<Rightarrow> bool" where
  "within ds \<sigma> \<longleftrightarrow> (\<forall>v d. map_of ds v = Some d \<longrightarrow> (\<exists>x. \<sigma> v = Some x \<and> x \<in> elems d))"

definition satisfies :: "csp \<Rightarrow> env \<Rightarrow> bool" where
  "satisfies cs \<sigma> \<longleftrightarrow> (\<forall>c\<in>set (constraints cs). holds c \<sigma> = Inr True)"

lemma holds_restrict:
  assumes "\<And>u. u \<in> set (scope c) \<Longrightarrow> \<tau> u = \<sigma> u"
  shows "holds c \<tau> = Inr True \<longleftrightarrow> holds c \<sigma> = Inr True"
  unfolding holds_True using assms by simp

lemma solution_supported:
  assumes wf: "well_formed cs ds" and arc: "(v, c) \<in> arcs_of cs"
    and w: "within ds \<sigma>" and s: "satisfies cs \<sigma>" and x: "\<sigma> v = Some x"
  shows "supported ds v c x"
proof -
  from arc have c: "c \<in> set (constraints cs)" "v \<in> set (scope c)" by (auto dest: arcs_ofD)
  define \<tau> where "\<tau> = (\<lambda>u. if u \<in> set (scope c) then \<sigma> u else None)"
  have "holds c \<tau> = Inr True"
    using s c(1) holds_restrict [of c \<tau> \<sigma>] by (simp add: satisfies_def \<tau>_def)
  moreover have "\<tau> v = Some x" using x c(2) by (simp add: \<tau>_def)
  moreover have "\<forall>u. u \<noteq> v \<and> u \<notin> set (scope c) \<longrightarrow> \<tau> u = None" by (simp add: \<tau>_def)
  moreover have "\<forall>u\<in>set (scope c). u \<noteq> v \<longrightarrow>
      (\<exists>d y. map_of ds u = Some d \<and> \<tau> u = Some y \<and> y \<in> elems d)"
  proof (intro ballI impI)
    fix u assume u: "u \<in> set (scope c)"
    with wf c(1) obtain d where d: "map_of ds u = Some d"
      unfolding well_formed_def by blast
    with w obtain y where "\<sigma> u = Some y" "y \<in> elems d" unfolding within_def by blast
    with d u show "\<exists>d y. map_of ds u = Some d \<and> \<tau> u = Some y \<and> y \<in> elems d"
      by (simp add: \<tau>_def)
  qed
  ultimately show ?thesis unfolding supported_witness by blast
qed

lemma within_update:
  assumes "within ds \<sigma>" and "\<sigma> v = Some x" and "x \<in> elems d'"
  shows "within (AList.update v d' ds) \<sigma>"
  using assms unfolding within_def by (auto simp: update_conv')

lemma mac_loop_sound:
  "well_formed cs ds \<Longrightarrow> pending_ok cs ds to_do \<Longrightarrow>
   make_arc_consistent_loop orc cs ds to_do = Inr ds' \<Longrightarrow>
   within ds \<sigma> \<Longrightarrow> satisfies cs \<sigma> \<Longrightarrow> within ds' \<sigma>"
proof (induction orc cs ds to_do rule: make_arc_consistent_loop.induct)
  case (1 orc cs ds to_do)
  note wf = "1.prems"(1) and pend = "1.prems"(2) and res = "1.prems"(3)
    and w = "1.prems"(4) and s = "1.prems"(5)
  show ?case
  proof (cases "to_do = []")
    case True
    with res w show ?thesis by (simp add: make_arc_consistent_loop.simps)
  next
    case ne: False
    obtain v c to_do1 where sel: "select_arc orc ds to_do = ((v, c), to_do1)"
      by (metis prod.exhaust)
    note sa = select_arc_set [OF ne sel]
    from pend sa(1) have arc: "(v, c) \<in> arcs_of cs" by (auto simp: pending_ok_def)
    then have vc: "c \<in> set (constraints cs)" "v \<in> set (scope c)" by (auto dest: arcs_ofD)
    with wf obtain d ncs where d: "map_of ds v = Some d"
      and ncs: "map_of (var_to_const cs) v = Some ncs"
      unfolding well_formed_def by blast
    then have lk: "lookup ds v = Inr d" by simp
    define keep where "keep = filter (supported ds v c) (iter orc d)"
    have rev: "revise orc ds c v (filter (\<lambda>ov. ov \<noteq> v) (scope c)) (iter orc d) = Inr keep"
      unfolding keep_def by (rule revise_supported [OF wf arc])
    have new: "x \<in> fset (fset_of_list keep) \<longleftrightarrow> x \<in> elems d \<and> supported ds v c x" for x
      by (auto simp: keep_def fset_of_list.rep_eq)
    from new_to_do_set [OF ncs, of "Some c"] obtain add
      where nt: "new_to_do cs v (Some c) = Inr add" by blast
    show ?thesis
    proof (cases "PySet (fset_of_list keep) \<noteq> d")
      case True
      have unfold: "make_arc_consistent_loop orc cs ds to_do =
          make_arc_consistent_loop orc cs (AList.update v (PySet (fset_of_list keep)) ds)
            (to_do1 @ filter (\<lambda>a. a \<notin> set to_do1) add)"
        using ne sel d rev True nt
        by (subst make_arc_consistent_loop.simps) (simp add: lookup_def)
      have wf': "well_formed cs (AList.update v (PySet (fset_of_list keep)) ds)"
        using wf by (rule well_formed_update)
      have pend': "pending_ok cs (AList.update v (PySet (fset_of_list keep)) ds)
          (to_do1 @ filter (\<lambda>a. a \<notin> set to_do1) add)"
        using wf pend ne sel d new nt by (rule step_changed)
      from w d obtain x where x: "\<sigma> v = Some x" "x \<in> elems d" unfolding within_def by blast
      have "supported ds v c x" using wf arc w s x(1) by (rule solution_supported)
      with x(2) new have "x \<in> elems (PySet (fset_of_list keep))" by simp
      with w x(1) have w': "within (AList.update v (PySet (fset_of_list keep)) ds) \<sigma>"
        by (rule within_update)
      from res unfold have res': "make_arc_consistent_loop orc cs
          (AList.update v (PySet (fset_of_list keep)) ds)
          (to_do1 @ filter (\<lambda>a. a \<notin> set to_do1) add) = Inr ds'" by simp
      show ?thesis
        by (rule "1.IH"(1) [OF ne sel [symmetric] refl lk rev True nt wf' pend' res' w' s])
    next
      case False
      then have eq: "d = PySet (fset_of_list keep)" by simp
      have unfold: "make_arc_consistent_loop orc cs ds to_do =
          make_arc_consistent_loop orc cs ds to_do1"
        using ne sel d rev False
        by (subst make_arc_consistent_loop.simps) (simp add: lookup_def)
      have lk': "map_of ds v = Some (PySet (fset_of_list keep))" using d eq by simp
      have new': "x \<in> fset (fset_of_list keep) \<longleftrightarrow>
          x \<in> fset (fset_of_list keep) \<and> supported ds v c x" for x
        using new [of x] eq by (metis elems.simps(2))
      have pend': "pending_ok cs ds to_do1"
        using pend ne sel lk' new' by (rule step_same)
      from res unfold have res': "make_arc_consistent_loop orc cs ds to_do1 = Inr ds'" by simp
      show ?thesis
        by (rule "1.IH"(2) [OF ne sel [symmetric] refl lk rev False wf pend' res' w s])
    qed
  qed
qed

lemma within_shrinks: "shrinks ds' ds \<Longrightarrow> within ds' \<sigma> \<Longrightarrow> within ds \<sigma>"
  unfolding shrinks_def within_def by (metis subsetD)

subsection \<open>The tests of \<open>solve_recursive_ds\<close>\<close>

lemma any_len_char:
  "\<forall>k\<in>set ks. map_of D k \<noteq> None \<Longrightarrow>
   any_len P D ks = Inr (\<exists>k\<in>set ks. \<exists>d. map_of D k = Some d \<and> P (dom_len d))"
  by (induction ks) (auto simp: lookup_def split: option.splits)

lemma all_len_char:
  "\<forall>k\<in>set ks. map_of D k \<noteq> None \<Longrightarrow>
   all_len P D ks = Inr (\<forall>k\<in>set ks. \<exists>d. map_of D k = Some d \<and> P (dom_len d))"
  by (induction ks) (auto simp: lookup_def split: option.splits)

lemma first_values_char:
  "\<forall>k\<in>set ks. map_of D k \<noteq> None \<Longrightarrow>
   first_values orc D ks =
     Inr (map (\<lambda>k. (k, case map_of D k of None \<Rightarrow> None | Some d \<Rightarrow> select_first (iter orc d))) ks)"
  by (induction ks) (auto simp: lookup_def split: option.splits)

lemma open_vars_char:
  "\<forall>k\<in>set ks. map_of D k \<noteq> None \<Longrightarrow>
   open_vars D ks = Inr (filter (\<lambda>x. \<exists>d. map_of D x = Some d \<and> 1 < dom_len d) ks)"
  by (induction ks) (auto simp: lookup_def split: option.splits)

lemma shrinks_keys: "shrinks ds' ds \<Longrightarrow> map_of ds' k \<noteq> None \<longleftrightarrow> map_of ds k \<noteq> None"
  unfolding shrinks_def by (metis map_of_eq_None_iff set_map)


subsection \<open>What the search returns\<close>

definition assignment_of :: "(var \<times> int option) list \<Rightarrow> env" where
  "assignment_of sol = (\<lambda>v. case map_of sol v of None \<Rightarrow> None | Some val \<Rightarrow> val)"

definition solution_of :: "csp \<Rightarrow> domains \<Rightarrow> (var \<times> int option) list \<Rightarrow> bool" where
  "solution_of cs ds sol \<longleftrightarrow>
     map fst sol = map fst ds \<and> within ds (assignment_of sol) \<and> satisfies cs (assignment_of sol)"

lemma length_iter: "length (iter orc d) = dom_len d"
  by (cases d) (simp_all add: sorted_list_of_fset.rep_eq fcard.rep_eq)

lemma singleton_first:
  assumes "dom_len d = 1"
  obtains x where "elems d = {x}" "select_first (iter orc d) = Some x"
proof -
  from assms have "length (iter orc d) = 1" by (simp add: length_iter)
  then obtain x where x: "iter orc d = [x]"
    by (cases "iter orc d") auto
  then have "set (iter orc d) = {x}" by simp
  then have "elems d = {x}" by simp
  with x that show thesis by (simp add: select_first_def)
qed

lemma map_of_map_keys: "k \<in> set ks \<Longrightarrow> map_of (map (\<lambda>k. (k, f k)) ks) k = Some (f k)"
  by (induction ks) auto

lemma split_pending:
  assumes wf: "well_formed cs nd" and ac: "pending_ok cs nd []"
    and lk: "map_of nd v = Some (PySet S)" and sub: "A |\<subseteq>| S"
    and nt: "new_to_do cs v None = Inr arcs"
  shows "pending_ok cs (copy_with_assign nd (Some v) (PySet A)) arcs"
proof -
  let ?ds' = "AList.update v (PySet A) nd"
  have m': "map_of ?ds' = (map_of nd)(v \<mapsto> PySet A)" by (rule update_conv')
  from ac have ok: "\<And>a. a \<in> arcs_of cs \<Longrightarrow> arc_ok nd a" by (simp add: pending_ok_def)
  from nt obtain ncs where ncs: "map_of (var_to_const cs) v = Some ncs"
    by (auto simp: new_to_do_def split: option.splits)
  with wf have ncs_eq: "set ncs = {c'\<in>set (constraints cs). v \<in> set (scope c')}"
    unfolding well_formed_def by blast
  from new_to_do_set [OF ncs, of None] nt
  have arcs: "set arcs = {(n, c2). c2 \<in> set ncs \<and> n \<in> set (scope c2) \<and> n \<noteq> v}" by auto
  have sub_arcs: "set arcs \<subseteq> arcs_of cs" using arcs ncs_eq by (auto simp: arcs_of_def)
  have "arc_ok ?ds' a" if a: "a \<in> arcs_of cs" and out: "a \<notin> set arcs" for a
  proof -
    obtain n c2 where a_eq: "a = (n, c2)" by (cases a)
    from a a_eq have n: "c2 \<in> set (constraints cs)" "n \<in> set (scope c2)"
      by (auto dest: arcs_ofD)
    from ok [OF a] a_eq obtain T where T: "map_of nd n = Some (PySet T)"
      "\<forall>x\<in>fset T. supported nd n c2 x"
      by (auto simp: arc_ok_def)
    show ?thesis
    proof (cases "n = v")
      case True
      with T lk have "T = S" by simp
      with T(2) sub True have sup: "\<forall>x\<in>fset A. supported nd v c2 x"
        by (auto simp: less_eq_fset.rep_eq)
      have "supported ?ds' v c2 x = supported nd v c2 x" for x
        by (rule supported_cong) (simp add: m')
      with sup True a_eq show ?thesis by (auto simp: arc_ok_def m')
    next
      case False
      have "v \<notin> set (scope c2)"
      proof
        assume "v \<in> set (scope c2)"
        with n ncs_eq have "c2 \<in> set ncs" by simp
        with n False arcs a_eq have "a \<in> set arcs" by simp
        with out show False by simp
      qed
      then have "supported ?ds' n c2 x = supported nd n c2 x" for x
        by (intro supported_cong) (auto simp: m')
      with T False a_eq show ?thesis by (auto simp: arc_ok_def m')
    qed
  qed
  with sub_arcs show ?thesis unfolding pending_ok_def copy_with_assign_def by simp
qed

lemma leaf_solution:
  assumes wf: "well_formed cs ds" and sh: "shrinks out ds" and ac: "pending_ok cs out []"
    and ones: "\<forall>k\<in>set (map fst ds). \<exists>d. map_of out k = Some d \<and> dom_len d = 1"
  shows "solution_of cs ds
    (map (\<lambda>k. (k, case map_of out k of None \<Rightarrow> None | Some d \<Rightarrow> select_first (iter orc d)))
       (map fst ds))"
proof -
  define f where "f = (\<lambda>k. case map_of out k of None \<Rightarrow> None | Some d \<Rightarrow> select_first (iter orc d))"
  define sol where "sol = map (\<lambda>k. (k, f k)) (map fst ds)"
  have val: "\<exists>d x. map_of out k = Some d \<and> elems d = {x} \<and> assignment_of sol k = Some x"
    if k: "k \<in> set (map fst ds)" for k
  proof -
    from ones k obtain d where d: "map_of out k = Some d" "dom_len d = 1" by blast
    from d(2) obtain x where x: "elems d = {x}" "select_first (iter orc d) = Some x"
      by (rule singleton_first)
    have "map_of sol k = Some (f k)"
      unfolding sol_def using k by (rule map_of_map_keys)
    then have "assignment_of sol k = f k"
      by (simp add: assignment_of_def)
    with d x show ?thesis by (simp add: f_def)
  qed
  have key: "k \<in> set (map fst ds)" if "map_of ds k \<noteq> None" for k
    using that by (metis map_of_eq_None_iff set_map)
  have w: "within ds (assignment_of sol)"
    unfolding within_def
  proof (intro allI impI)
    fix v d assume d: "map_of ds v = Some d"
    then have "v \<in> set (map fst ds)" by (intro key) simp
    from val [OF this] obtain d' x where x: "map_of out v = Some d'" "elems d' = {x}"
      "assignment_of sol v = Some x" by blast
    from sh d obtain d'' where "map_of out v = Some d''" "elems d'' \<subseteq> elems d"
      unfolding shrinks_def by blast
    with x show "\<exists>x. assignment_of sol v = Some x \<and> x \<in> elems d" by auto
  qed
  have s: "satisfies cs (assignment_of sol)"
    unfolding satisfies_def holds_True
  proof (intro ballI impI)
    fix c p1 p2
    assume c: "c \<in> set (constraints cs)" and p: "p1 \<in> set (scope c)" "p2 \<in> set (scope c)" "p1 \<noteq> p2"
    from wf c p have n: "map_of ds p1 \<noteq> None" "map_of ds p2 \<noteq> None"
      unfolding well_formed_def by blast+
    have k: "p1 \<in> set (map fst ds)" "p2 \<in> set (map fst ds)"
      using key [OF n(1)] key [OF n(2)] by blast+
    from val [OF k(1)] obtain d1 x1 where x1: "map_of out p1 = Some d1" "elems d1 = {x1}"
      "assignment_of sol p1 = Some x1" by blast
    from val [OF k(2)] obtain d2 x2 where x2: "map_of out p2 = Some d2" "elems d2 = {x2}"
      "assignment_of sol p2 = Some x2" by blast
    from c p(1) have "(p1, c) \<in> arcs_of cs" by (simp add: arcs_of_def)
    with ac have "arc_ok out (p1, c)" by (simp add: pending_ok_def)
    with x1 have "supported out p1 c x1" by (auto simp: arc_ok_def)
    then obtain \<tau> where t: "\<tau> p1 = Some x1"
      "\<forall>u\<in>set (scope c). u \<noteq> p1 \<longrightarrow> (\<exists>d y. map_of out u = Some d \<and> \<tau> u = Some y \<and> y \<in> elems d)"
      "holds c \<tau> = Inr True"
      unfolding supported_witness by blast
    from t(2) p x2 have "\<tau> p2 = Some x2" by fastforce
    with t(1,3) p have "x1 \<noteq> x2" unfolding holds_True by fastforce
    with x1 x2 show "\<exists>x y. assignment_of sol p1 = Some x \<and> assignment_of sol p2 = Some y \<and> x \<noteq> y"
      by simp
  qed
  have "map fst sol = map fst ds" by (simp add: sol_def comp_def)
  with w s show ?thesis unfolding solution_of_def sol_def f_def by simp
qed


lemma solution_of_shrinks:
  assumes "solution_of cs ds1 sol" and "shrinks ds1 ds"
  shows "solution_of cs ds sol"
  using assms unfolding solution_of_def
  by (auto simp: shrinks_def intro: within_shrinks [OF assms(2)])

lemma shrinks_split:
  assumes "map_of nd v = Some (PySet S)" and "A |\<subseteq>| S"
  shows "shrinks (copy_with_assign nd (Some v) (PySet A)) nd"
proof -
  have "shrinks (AList.update v (PySet A) nd) nd"
    using assms by (intro shrinks_update [of nd v "PySet S"]) (auto simp: less_eq_fset.rep_eq fcard_mono)
  then show ?thesis by (simp add: copy_with_assign_def)
qed

lemma solve_sound:
  "well_formed cs (case doms of None \<Rightarrow> domains cs | Some ds \<Rightarrow> ds) \<Longrightarrow>
   pending_ok cs (case doms of None \<Rightarrow> domains cs | Some ds \<Rightarrow> ds)
     (case to_do of None \<Rightarrow> all_arcs cs | Some arcs \<Rightarrow> arcs) \<Longrightarrow>
   solve_recursive_ds orc cs doms to_do = Inr (PyDict sol) \<Longrightarrow>
   solution_of cs (case doms of None \<Rightarrow> domains cs | Some ds \<Rightarrow> ds) sol"
proof (induction orc cs doms to_do arbitrary: sol rule: solve_recursive_ds.induct)
  case (1 orc cs doms to_do)
  define ds where "ds = (case doms of None \<Rightarrow> domains cs | Some ds \<Rightarrow> ds)"
  note wf = "1.prems"(1) [folded ds_def] and pend = "1.prems"(2) [folded ds_def]
    and res = "1.prems"(3)
  have "\<exists>out. make_arc_consistent orc cs (Some ds) to_do = Inr out \<and> pending_ok cs out [] \<and>
           well_formed cs out"
    using wf pend by (intro mac_consistent) simp_all
  then obtain out where mac: "make_arc_consistent orc cs (Some ds) to_do = Inr out"
    and ac: "pending_ok cs out []" and wfo: "well_formed cs out"
    by blast
  have sh: "shrinks out ds" using mac by (rule mac_shrinks)
  have keys: "\<forall>k\<in>set (map fst ds). map_of out k \<noteq> None"
    using sh unfolding shrinks_def by (metis map_of_eq_None_iff set_map)
  define e where "e = (\<exists>k\<in>set (map fst ds). \<exists>d. map_of out k = Some d \<and> dom_len d = 0)"
  define a where "a = (\<forall>k\<in>set (map fst ds). \<exists>d. map_of out k = Some d \<and> dom_len d = 1)"
  have anyl: "any_len (\<lambda>n. n = 0) out (map fst ds) = Inr e"
    unfolding e_def using keys by (rule any_len_char)
  have alll: "all_len (\<lambda>n. n = 1) out (map fst ds) = Inr a"
    unfolding a_def using keys by (rule all_len_char)
  have fv: "first_values orc out (map fst ds) =
      Inr (map (\<lambda>k. (k, case map_of out k of None \<Rightarrow> None | Some d \<Rightarrow> select_first (iter orc d)))
        (map fst ds))"
    using keys by (rule first_values_char)
  note unfold = solve_recursive_ds.simps [of orc cs doms to_do, folded ds_def]
  have ne: "\<not> e"
  proof
    assume e
    with res mac anyl show False unfolding unfold by simp
  qed
  show ?case
  proof (cases a)
    case True
    with res mac anyl alll ne fv
    have "sol = map (\<lambda>k. (k, case map_of out k of None \<Rightarrow> None | Some d \<Rightarrow> select_first (iter orc d)))
        (map fst ds)"
      unfolding unfold by simp
    moreover from True have "\<forall>k\<in>set (map fst ds). \<exists>d. map_of out k = Some d \<and> dom_len d = 1"
      by (simp add: a_def)
    ultimately show ?thesis unfolding ds_def [symmetric]
      using leaf_solution [OF wf sh ac, of orc] by simp
  next
    case False
    from res mac anyl alll ne False obtain items v d dom1 dom2 arcs
      where items: "open_vars out (variables cs) = Inr items"
        and sel: "select_most_constrained_var cs (Generator items) = Inr (Some v)"
        and lk: "lookup out v = Inr d"
        and part: "partition_domain orc d = Inr (dom1, dom2)"
        and nt: "new_to_do cs v None = Inr arcs"
        and rest: "(case solve_recursive_ds orc cs (Some (copy_with_assign out (Some v) dom1)) (Some arcs) of
                     Inl e \<Rightarrow> Inl e
                   | Inr r \<Rightarrow> if truthy r then Inr r
                       else solve_recursive_ds orc cs (Some (copy_with_assign out (Some v) dom2)) (Some arcs))
                   = Inr (PyDict sol)"
      unfolding unfold
      by (auto split: sum.splits option.splits prod.splits simp del: lookup_Inr lookup_Inl)
    from part obtain S A where sp: "d = PySet S" "dom1 = PySet A" "dom2 = PySet (S |-| A)"
      "A |\<subseteq>| S"
      by (rule partition_domain_PySet)
    from lk sp have lkS: "map_of out v = Some (PySet S)" by simp
    have sub2: "S |-| A |\<subseteq>| S" by auto
    have wf1: "well_formed cs (copy_with_assign out (Some v) dom1)"
      and wf2: "well_formed cs (copy_with_assign out (Some v) dom2)"
      using wfo by (simp_all add: copy_with_assign_def well_formed_update)
    have p1: "pending_ok cs (copy_with_assign out (Some v) dom1) arcs"
      unfolding sp using wfo ac lkS sp(4) nt by (rule split_pending)
    have p2: "pending_ok cs (copy_with_assign out (Some v) dom2) arcs"
      unfolding sp using wfo ac lkS sub2 nt by (rule split_pending)
    have sh1: "shrinks (copy_with_assign out (Some v) dom1) ds"
      using shrinks_split [OF lkS sp(4)] sh unfolding sp by (rule shrinks_trans)
    have sh2: "shrinks (copy_with_assign out (Some v) dom2) ds"
      using shrinks_split [OF lkS sub2] sh unfolding sp by (rule shrinks_trans)
    have eF: "e = False" and aF: "a = False" using ne False by simp_all
    note pre = mac [unfolded ds_def] anyl [unfolded ds_def] eF alll [unfolded ds_def] aF items sel refl
      lk part refl nt
    from rest obtain r where r: "solve_recursive_ds orc cs (Some (copy_with_assign out (Some v) dom1))
        (Some arcs) = Inr r"
      by (auto split: sum.splits)
    show ?thesis
    proof (cases "truthy r")
      case True
      with rest r have "solve_recursive_ds orc cs (Some (copy_with_assign out (Some v) dom1))
          (Some arcs) = Inr (PyDict sol)" by simp
      from "1.IH"(1) [OF pre _ _ this] wf1 p1
      have "solution_of cs (copy_with_assign out (Some v) dom1) sol" by simp
      then show ?thesis unfolding ds_def [symmetric] using sh1 by (rule solution_of_shrinks)
    next
      case False
      with rest r have "solve_recursive_ds orc cs (Some (copy_with_assign out (Some v) dom2))
          (Some arcs) = Inr (PyDict sol)" by simp
      from "1.IH"(2) [OF pre r False _ _ this] wf2 p2
      have "solution_of cs (copy_with_assign out (Some v) dom2) sol" by simp
      then show ?thesis unfolding ds_def [symmetric] using sh2 by (rule solution_of_shrinks)
    qed
  qed
qed


subsection \<open>The problem that \<open>Sudoku_init\<close> builds\<close>

text \<open>
  The input contract: a puzzle is a 9 by 9 grid of integers from 0 to 9.
\<close>

definition is_puzzle :: "int list list \<Rightarrow> bool" where
  "is_puzzle pz \<longleftrightarrow>
     length pz = 9 \<and> (\<forall>row\<in>set pz. length row = 9 \<and> (\<forall>x\<in>set row. 0 \<le> x \<and> x \<le> 9))"

definition positions :: "int list list \<Rightarrow> var list" where
  "positions pz = [(i, j). i \<leftarrow> [0..<length pz], j \<leftarrow> [0..<length (pz ! i)]]"

lemma set_positions: "(r, c) \<in> set (positions pz) \<longleftrightarrow> r < length pz \<and> c < length (pz ! r)"
  by (force simp: positions_def)

lemma distinct_pairs:
  "distinct rows \<Longrightarrow> distinct [(i, j). i \<leftarrow> rows, j \<leftarrow> [0..<f i]]"
  by (induction rows) (auto simp: distinct_map inj_on_def)

lemma distinct_positions: "distinct (positions pz)"
  unfolding positions_def by (rule distinct_pairs) simp

lemma map_fst_initial: "map fst (initial_domains pz) = positions pz"
  by (simp add: initial_domains_def positions_def map_concat comp_def)

lemma map_of_initial:
  "map_of (initial_domains pz) v = (if v \<in> set (positions pz) then Some (PyList [1..9]) else None)"
proof -
  have "initial_domains pz = map (\<lambda>v. (v, PyList [1..9])) (positions pz)"
    by (simp add: initial_domains_def positions_def map_concat comp_def)
  then show ?thesis by (simp add: map_of_map_restrict restrict_map_def)
qed

lemma fold_assign_known:
  "set ps \<subseteq> set (map fst ds) \<Longrightarrow>
   map fst (fold (assign_known pz) ps ds) = map fst ds \<and>
   (\<forall>v. map_of (fold (assign_known pz) ps ds) v =
      (if v \<in> set ps \<and> pz ! fst v ! snd v \<noteq> 0 then Some (PyList [pz ! fst v ! snd v])
       else map_of ds v))"
proof (induction ps arbitrary: ds)
  case Nil
  then show ?case by simp
next
  case (Cons p ps)
  obtain i j where p: "p = (i, j)" by (cases p)
  define ds1 where "ds1 = assign_known pz p ds"
  from Cons.prems have "p \<in> set (map fst ds)" by simp
  then obtain d where d: "map_of ds p = Some d"
    by (metis map_of_eq_None_iff not_Some_eq set_map)
  have k1: "map fst ds1 = map fst ds"
    using d by (simp add: ds1_def assign_known_def p map_fst_update)
  have m1: "map_of ds1 v = (if v = p \<and> pz ! fst v ! snd v \<noteq> 0 then Some (PyList [pz ! fst v ! snd v])
      else map_of ds v)" for v
    by (auto simp: ds1_def assign_known_def p update_conv')
  from Cons.prems k1 have "set ps \<subseteq> set (map fst ds1)" by simp
  from Cons.IH [OF this] k1 m1 show ?case
    by (auto simp: ds1_def [symmetric])
qed

lemma known_domains_keys: "map fst (known_domains pz) = positions pz"
  unfolding known_domains_def positions_def [symmetric]
  using fold_assign_known [of "positions pz" "initial_domains pz" pz]
  by (simp add: map_fst_initial)

lemma map_of_known_domains:
  "map_of (known_domains pz) v =
     (if v \<in> set (positions pz)
      then Some (if pz ! fst v ! snd v \<noteq> 0 then PyList [pz ! fst v ! snd v] else PyList [1..9])
      else None)"
  unfolding known_domains_def positions_def [symmetric]
  using fold_assign_known [of "positions pz" "initial_domains pz" pz]
  by (simp add: map_fst_initial map_of_initial)

lemma sudoku_scopes:
  "\<forall>c\<in>set sudoku_constraints. distinct (scope c) \<and> length (scope c) = 9 \<and>
      (\<forall>p\<in>set (scope c). fst p < 9 \<and> snd p < 9)"
  by code_simp

lemma register_scope_succeeds:
  "\<forall>v\<in>set vs. map_of m v \<noteq> None \<Longrightarrow> \<exists>m'. register_scope con vs m = Inr m'"
proof (induction con vs m rule: register_scope.induct)
  case (1 con m)
  show ?case by simp
next
  case (2 con v vs m)
  from "2.prems" obtain cs where cs: "map_of m v = Some cs" by auto
  have "\<forall>u\<in>set vs. map_of (AList.update v (List.insert con cs) m) u \<noteq> None"
    using "2.prems" by (simp add: update_conv')
  from "2.IH" [OF cs this] cs show ?case by simp
qed

lemma register_all_succeeds:
  "\<forall>c\<in>set cons. \<forall>v\<in>set (scope c). map_of m v \<noteq> None \<Longrightarrow> \<exists>m'. register_all cons m = Inr m'"
proof (induction cons m rule: register_all.induct)
  case (1 m)
  show ?case by simp
next
  case (2 con cons m)
  from "2.prems" have "\<forall>v\<in>set (scope con). map_of m v \<noteq> None" by simp
  then obtain m1 where m1: "register_scope con (scope con) m = Inr m1"
    by (blast dest: register_scope_succeeds)
  from register_scope_Inr [OF m1] "2.prems"
  have "\<forall>c\<in>set cons. \<forall>v\<in>set (scope c). map_of m1 v \<noteq> None" by simp
  from "2.IH" [OF m1 this] m1 show ?case by simp
qed

lemma Sudoku_init_succeeds:
  assumes "is_puzzle pz"
  obtains s where "Sudoku_init orc pz = Inr s" "well_formed (csp s) (known_domains pz)"
    "domains (csp s) = known_domains pz" "constraints (csp s) = sudoku_constraints"
    "set (variables (csp s)) = set (positions pz)" "distinct (variables (csp s))"
proof -
  define vs where "vs = py_iter (var_order orc) (map fst (known_domains pz))"
  have pos: "(r, c) \<in> set (positions pz)" if "r < 9" "c < 9" for r c
    using that assms by (simp add: set_positions is_puzzle_def)
  have "\<forall>c\<in>set sudoku_constraints. \<forall>v\<in>set (scope c). map_of (map (\<lambda>v. (v, [])) vs) v \<noteq> None"
  proof (intro ballI)
    fix c v assume "c \<in> set sudoku_constraints" "v \<in> set (scope c)"
    with sudoku_scopes have "fst v < 9" "snd v < 9" by blast+
    then have "v \<in> set (positions pz)" using pos [of "fst v" "snd v"] by simp
    then show "map_of (map (\<lambda>v. (v, [])) vs) v \<noteq> None"
      by (simp add: map_of_empty_lists vs_def known_domains_keys)
  qed
  then obtain m where "register_all sudoku_constraints (map (\<lambda>v. (v, [])) vs) = Inr m"
    by (blast dest: register_all_succeeds)
  then obtain cs where cs: "CSP_init orc (known_domains pz) sudoku_constraints = Inr cs"
    by (simp add: CSP_init_def vs_def Let_def)
  then have init: "Sudoku_init orc pz = Inr \<lparr>puzzle = pz, ans = map (map Some) pz, csp = cs\<rparr>"
    by (simp add: Sudoku_init_def)
  have wf: "well_formed cs (known_domains pz)"
    using cs sudoku_scopes by (intro CSP_init_well_formed) auto
  have "distinct (map fst (known_domains pz))"
    by (simp add: known_domains_keys distinct_positions)
  with CSP_init_fields [OF cs] have "domains cs = known_domains pz"
    "constraints cs = sudoku_constraints" "set (variables cs) = set (positions pz)"
    "distinct (variables cs)"
    by (simp_all add: known_domains_keys [symmetric])
  with init wf that show thesis by simp
qed


subsection \<open>The grid that \<open>solve\<close> returns\<close>

lemma length_row_update:
  "i < length g \<Longrightarrow> length (g[r := (g ! r)[c := val]] ! i) = length (g ! i)"
  by (cases "i = r") simp_all

lemma nth_row_update_other:
  "(r', c') \<noteq> (r, c) \<Longrightarrow> r' < length g \<Longrightarrow> g[r := (g ! r)[c := val]] ! r' ! c' = g ! r' ! c'"
  by (cases "r' = r") auto

lemma nth_row_update_same:
  "r < length g \<Longrightarrow> c < length (g ! r) \<Longrightarrow> g[r := (g ! r)[c := val]] ! r ! c = val"
  by simp

lemma store_shape:
  "store g sol = Inr g' \<Longrightarrow> length g' = length g \<and> (\<forall>r<length g. length (g' ! r) = length (g ! r))"
proof (induction g sol arbitrary: g' rule: store.induct)
  case (1 g)
  then show ?case by simp
next
  case (2 g r c val items)
  from "2.prems" have ok: "r < length g \<and> c < length (g ! r)"
    and rec: "store (g[r := (g ! r)[c := val]]) items = Inr g'"
    by (auto split: if_splits)
  from "2.IH" [OF ok rec] show ?case
    by (simp add: length_row_update)
qed

lemma store_cells:
  "distinct (map fst sol) \<Longrightarrow> \<forall>p\<in>set (map fst sol). fst p < length g \<and> snd p < length (g ! fst p) \<Longrightarrow>
   \<exists>g'. store g sol = Inr g' \<and>
     (\<forall>r c val. map_of sol (r, c) = Some val \<longrightarrow> g' ! r ! c = val) \<and>
     (\<forall>r c. r < length g \<longrightarrow> map_of sol (r, c) = None \<longrightarrow> g' ! r ! c = g ! r ! c)"
proof (induction g sol rule: store.induct)
  case (1 g)
  then show ?case by simp
next
  case (2 g r c val items)
  let ?g1 = "g[r := (g ! r)[c := val]]"
  from "2.prems" have ok: "r < length g \<and> c < length (g ! r)" by simp
  have len: "length ?g1 = length g" "\<And>i. i < length g \<Longrightarrow> length (?g1 ! i) = length (g ! i)"
    by (simp_all add: length_row_update)
  from "2.prems" have d: "distinct (map fst items)" and notin: "(r, c) \<notin> set (map fst items)"
    by simp_all
  from notin have none: "map_of items (r, c) = None" by (simp add: map_of_eq_None_iff)
  have "\<forall>p\<in>set (map fst items). fst p < length ?g1 \<and> snd p < length (?g1 ! fst p)"
    using "2.prems"(2) len by simp
  from "2.IH" [OF ok d this] obtain g' where g': "store ?g1 items = Inr g'"
    and some: "\<And>r' c' val'. map_of items (r', c') = Some val' \<Longrightarrow> g' ! r' ! c' = val'"
    and other: "\<And>r' c'. r' < length ?g1 \<Longrightarrow> map_of items (r', c') = None \<Longrightarrow>
        g' ! r' ! c' = ?g1 ! r' ! c'"
    by blast
  have st: "store g (((r, c), val) # items) = Inr g'" using g' ok by simp
  have A: "g' ! r' ! c' = val'" if "map_of (((r, c), val) # items) (r', c') = Some val'" for r' c' val'
  proof (cases "(r', c') = (r, c)")
    case True
    with that have "val' = val" by simp
    moreover have "g' ! r ! c = ?g1 ! r ! c" using other [of r c] none ok by simp
    moreover have "?g1 ! r ! c = val" using ok by (simp add: nth_row_update_same)
    ultimately show ?thesis using True by simp
  next
    case False
    with that have "map_of items (r', c') = Some val'" by (auto split: if_splits)
    then show ?thesis by (rule some)
  qed
  have B: "g' ! r' ! c' = g ! r' ! c'"
    if "r' < length g" "map_of (((r, c), val) # items) (r', c') = None" for r' c'
  proof -
    from that(2) have ne: "(r', c') \<noteq> (r, c)" and n: "map_of items (r', c') = None"
      by (auto split: if_splits)
    have "g' ! r' ! c' = ?g1 ! r' ! c'" using other [of r' c'] that(1) n by simp
    also have "\<dots> = g ! r' ! c'" using ne that(1) by (rule nth_row_update_other)
    finally show ?thesis .
  qed
  from st A B show ?case by blast
qed

lemma distinct_count_list: "distinct xs \<Longrightarrow> x \<in> set xs \<Longrightarrow> count_list xs x = 1"
  by (induction xs) auto

lemma nine_distinct_digits:
  assumes "distinct xs" "length xs = 9" "set xs \<subseteq> Some ` {1..9::int}" "1 \<le> k" "k \<le> 9"
  shows "count_list xs (Some k) = 1"
proof -
  have "card (set xs) = 9" using assms(1,2) by (simp add: distinct_card)
  moreover have "card (Some ` {1..9::int}) = 9" by (simp add: card_image)
  ultimately have "set xs = Some ` {1..9::int}"
    using assms(3) by (intro card_subset_eq) auto
  then have "Some k \<in> set xs" using assms(4,5) by auto
  with assms(1) show ?thesis by (rule distinct_count_list)
qed

lemma known_domains_digits:
  assumes pz: "is_puzzle pz" and m: "map_of (known_domains pz) v = Some d" and x: "x \<in> elems d"
  shows "1 \<le> x \<and> x \<le> 9"
proof -
  obtain r c where v: "v = (r, c)" by (cases v)
  from m have pos: "v \<in> set (positions pz)"
    by (auto simp: map_of_known_domains split: if_splits)
  with v have rc: "r < length pz" "c < length (pz ! r)" by (simp_all add: set_positions)
  then have "pz ! r \<in> set pz" "pz ! r ! c \<in> set (pz ! r)" by simp_all
  with pz have "0 \<le> pz ! r ! c \<and> pz ! r ! c \<le> 9" unfolding is_puzzle_def by blast
  with m x pos v show ?thesis
    by (auto simp: map_of_known_domains split: if_splits)
qed

text \<open>
  A run that ends with a grid: the search returned a dictionary that solves the problem,
  and the grid holds its values at the 81 positions of the puzzle.
\<close>

lemma run_result:
  assumes pz: "is_puzzle pz" and run: "run orc pz = Inr g"
  obtains s sol where "Sudoku_init orc pz = Inr s"
    "solve_recursive_ds orc (csp s) None None = Inr (PyDict sol)"
    "solution_of (csp s) (known_domains pz) sol"
    "store (replicate 10 (replicate 10 (Some 0))) sol = Inr g"
    "\<And>r c. r < 9 \<Longrightarrow> c < 9 \<Longrightarrow> g ! r ! c = assignment_of sol (r, c)"
proof -
  from pz obtain s where s: "Sudoku_init orc pz = Inr s" "well_formed (csp s) (known_domains pz)"
    "domains (csp s) = known_domains pz" "constraints (csp s) = sudoku_constraints"
    by (rule Sudoku_init_succeeds)
  from run s(1) have "solve orc s = Inr g" by (simp add: run_def)
  then obtain sol where sol: "solve_recursive_ds orc (csp s) None None = Inr (PyDict sol)"
    and st: "store (replicate 10 (replicate 10 (Some 0))) sol = Inr g"
    by (auto simp: solve_def split: sum.splits result.splits)
  have "solution_of (csp s) (case None of None \<Rightarrow> domains (csp s) | Some ds \<Rightarrow> ds) sol"
    using s(2,3) sol by (intro solve_sound) (simp_all add: pending_all)
  then have so: "solution_of (csp s) (known_domains pz) sol" by (simp add: s(3))
  then have keys: "map fst sol = positions pz"
    by (simp add: solution_of_def known_domains_keys)
  have nine: "(r, c) \<in> set (positions pz) \<longleftrightarrow> r < 9 \<and> c < 9" for r c
    using pz by (auto simp: set_positions is_puzzle_def)
  have "distinct (map fst sol)" by (simp add: keys distinct_positions)
  moreover have "\<forall>p\<in>set (map fst sol). fst p < length (replicate 10 (replicate 10 (Some (0::int)))) \<and>
      snd p < length (replicate 10 (replicate 10 (Some (0::int))) ! fst p)"
  proof
    fix p assume "p \<in> set (map fst sol)"
    then have "(fst p, snd p) \<in> set (positions pz)" by (simp add: keys)
    then have "fst p < 9 \<and> snd p < 9" by (simp only: nine)
    then show "fst p < length (replicate 10 (replicate 10 (Some (0::int)))) \<and>
      snd p < length (replicate 10 (replicate 10 (Some (0::int))) ! fst p)"
      by simp
  qed
  ultimately have "\<exists>g'. store (replicate 10 (replicate 10 (Some 0))) sol = Inr g' \<and>
     (\<forall>r c val. map_of sol (r, c) = Some val \<longrightarrow> g' ! r ! c = val) \<and>
     (\<forall>r c. r < length (replicate 10 (replicate 10 (Some (0::int)))) \<longrightarrow>
        map_of sol (r, c) = None \<longrightarrow>
        g' ! r ! c = replicate 10 (replicate 10 (Some (0::int))) ! r ! c)"
    by (rule store_cells)
  then obtain g' where g': "store (replicate 10 (replicate 10 (Some 0))) sol = Inr g'"
    and cells: "\<And>r c val. map_of sol (r, c) = Some val \<Longrightarrow> g' ! r ! c = val"
    by blast
  from g' st have gg: "g' = g" by simp
  have "g ! r ! c = assignment_of sol (r, c)" if "r < 9" "c < 9" for r c
  proof -
    from that have "(r, c) \<in> set (map fst sol)" by (simp add: keys nine)
    then obtain val where "map_of sol (r, c) = Some val"
      by (metis map_of_eq_None_iff not_Some_eq set_map)
    with cells [of r c val] gg show ?thesis by (simp add: assignment_of_def)
  qed
  with s(1) sol so st that show thesis by blast
qed


lemma solve_cases:
  assumes mac: "make_arc_consistent orc cs (Some (case doms of None \<Rightarrow> domains cs | Some ds \<Rightarrow> ds)) to_do
      = Inr out"
    and keys: "\<forall>k\<in>set (map fst (case doms of None \<Rightarrow> domains cs | Some ds \<Rightarrow> ds)). map_of out k \<noteq> None"
  shows "(\<exists>k\<in>set (map fst (case doms of None \<Rightarrow> domains cs | Some ds \<Rightarrow> ds)).
            \<exists>d. map_of out k = Some d \<and> dom_len d = 0) \<Longrightarrow>
         solve_recursive_ds orc cs doms to_do = Inr PyFalse"
    and "\<not> (\<exists>k\<in>set (map fst (case doms of None \<Rightarrow> domains cs | Some ds \<Rightarrow> ds)).
            \<exists>d. map_of out k = Some d \<and> dom_len d = 0) \<Longrightarrow>
         \<forall>k\<in>set (map fst (case doms of None \<Rightarrow> domains cs | Some ds \<Rightarrow> ds)).
            \<exists>d. map_of out k = Some d \<and> dom_len d = 1 \<Longrightarrow>
         solve_recursive_ds orc cs doms to_do =
           Inr (PyDict (map (\<lambda>k. (k, case map_of out k of None \<Rightarrow> None
                                     | Some d \<Rightarrow> select_first (iter orc d)))
                  (map fst (case doms of None \<Rightarrow> domains cs | Some ds \<Rightarrow> ds))))"
proof -
  define ds where "ds = (case doms of None \<Rightarrow> domains cs | Some ds \<Rightarrow> ds)"
  define e where "e = (\<exists>k\<in>set (map fst ds). \<exists>d. map_of out k = Some d \<and> dom_len d = 0)"
  define a where "a = (\<forall>k\<in>set (map fst ds). \<exists>d. map_of out k = Some d \<and> dom_len d = 1)"
  define leaf where "leaf = map (\<lambda>k. (k, case map_of out k of None \<Rightarrow> None
                                     | Some d \<Rightarrow> select_first (iter orc d))) (map fst ds)"
  note unfold = solve_recursive_ds.simps [of orc cs doms to_do, folded ds_def]
  have anyl: "any_len (\<lambda>n. n = 0) out (map fst ds) = Inr e"
    unfolding e_def using keys [folded ds_def] by (rule any_len_char)
  have alll: "all_len (\<lambda>n. n = 1) out (map fst ds) = Inr a"
    unfolding a_def using keys [folded ds_def] by (rule all_len_char)
  have fv: "first_values orc out (map fst ds) = Inr leaf"
    unfolding leaf_def using keys [folded ds_def] by (rule first_values_char)
  have "e \<Longrightarrow> solve_recursive_ds orc cs doms to_do = Inr PyFalse"
    unfolding unfold using mac [folded ds_def] anyl by simp
  then show "(\<exists>k\<in>set (map fst (case doms of None \<Rightarrow> domains cs | Some ds \<Rightarrow> ds)).
            \<exists>d. map_of out k = Some d \<and> dom_len d = 0) \<Longrightarrow>
         solve_recursive_ds orc cs doms to_do = Inr PyFalse"
    unfolding e_def ds_def .
  have "\<not> e \<Longrightarrow> a \<Longrightarrow> solve_recursive_ds orc cs doms to_do = Inr (PyDict leaf)"
    unfolding unfold using mac [folded ds_def] anyl alll fv by simp
  then show "\<not> (\<exists>k\<in>set (map fst (case doms of None \<Rightarrow> domains cs | Some ds \<Rightarrow> ds)).
            \<exists>d. map_of out k = Some d \<and> dom_len d = 0) \<Longrightarrow>
         \<forall>k\<in>set (map fst (case doms of None \<Rightarrow> domains cs | Some ds \<Rightarrow> ds)).
            \<exists>d. map_of out k = Some d \<and> dom_len d = 1 \<Longrightarrow>
         solve_recursive_ds orc cs doms to_do =
           Inr (PyDict (map (\<lambda>k. (k, case map_of out k of None \<Rightarrow> None
                                     | Some d \<Rightarrow> select_first (iter orc d)))
                  (map fst (case doms of None \<Rightarrow> domains cs | Some ds \<Rightarrow> ds))))"
    unfolding e_def a_def leaf_def ds_def .
qed

subsection \<open>All 27 constraints hold in a returned grid\<close>

lemma run_result_ex:
  assumes "is_puzzle pz" and "run orc pz = Inr g"
  shows "\<exists>s sol. Sudoku_init orc pz = Inr s \<and>
    solve_recursive_ds orc (csp s) None None = Inr (PyDict sol) \<and>
    solution_of (csp s) (known_domains pz) sol \<and>
    store (replicate 10 (replicate 10 (Some 0))) sol = Inr g \<and>
    (\<forall>i j. i < 9 \<longrightarrow> j < 9 \<longrightarrow> g ! i ! j = assignment_of sol (i, j))"
  by (rule run_result [OF assms]) auto

lemma run_constraints:
  assumes pz: "is_puzzle pz" and run: "run orc pz = Inr g" and c: "c \<in> set sudoku_constraints"
  shows "distinct (map (\<lambda>(r, col). g ! r ! col) (scope c))"
    and "set (map (\<lambda>(r, col). g ! r ! col) (scope c)) \<subseteq> Some ` {1..9}"
proof -
  from run_result_ex [OF pz run] obtain s sol where s: "Sudoku_init orc pz = Inr s"
    and so: "solution_of (csp s) (known_domains pz) sol"
    and cells: "\<And>i j. i < 9 \<Longrightarrow> j < 9 \<Longrightarrow> g ! i ! j = assignment_of sol (i, j)"
    by blast
  from pz obtain s' where "Sudoku_init orc pz = Inr s'" "constraints (csp s') = sudoku_constraints"
    by (rule Sudoku_init_succeeds)
  with s have cons: "constraints (csp s) = sudoku_constraints" by simp
  define \<sigma> where "\<sigma> = assignment_of sol"
  from sudoku_scopes c have sc: "distinct (scope c)" "\<forall>p\<in>set (scope c). fst p < 9 \<and> snd p < 9"
    by blast+
  have eq: "map (\<lambda>(r, col). g ! r ! col) (scope c) = map \<sigma> (scope c)"
    using sc(2) cells by (auto simp: \<sigma>_def)
  from so cons c have h: "holds c \<sigma> = Inr True"
    by (simp add: solution_of_def satisfies_def \<sigma>_def)
  have "inj_on \<sigma> (set (scope c))"
  proof (rule inj_onI)
    fix p1 p2 assume "p1 \<in> set (scope c)" "p2 \<in> set (scope c)" "\<sigma> p1 = \<sigma> p2"
    with h show "p1 = p2" unfolding holds_True by fastforce
  qed
  with sc(1) show "distinct (map (\<lambda>(r, col). g ! r ! col) (scope c))"
    unfolding eq by (simp add: distinct_map)
  have nine: "(r, col) \<in> set (positions pz)" if "r < 9" "col < 9" for r col
    using pz that by (simp add: set_positions is_puzzle_def)
  have "\<sigma> p \<in> Some ` {1..9}" if p: "p \<in> set (scope c)" for p
  proof -
    from p sc(2) have "p \<in> set (positions pz)" using nine [of "fst p" "snd p"] by simp
    then obtain d where d: "map_of (known_domains pz) p = Some d"
      by (simp add: map_of_known_domains)
    with so obtain x where x: "\<sigma> p = Some x" "x \<in> elems d"
      unfolding solution_of_def within_def \<sigma>_def by blast
    from known_domains_digits [OF pz d x(2)] x(1) show ?thesis by simp
  qed
  then show "set (map (\<lambda>(r, col). g ! r ! col) (scope c)) \<subseteq> Some ` {1..9}"
    unfolding eq by auto
qed

text \<open>
  C2. When a run on a puzzle ends with a grid, that is, when the search returned an
  assignment, each of the 27 scopes (9 rows, 9 columns, 9 boxes) of the grid holds every
  digit from 1 to 9 exactly once.
\<close>

theorem solved_grid_all_different:
  assumes "is_puzzle pz" and "run orc pz = Inr g"
  shows "\<forall>c\<in>set sudoku_constraints. \<forall>k\<in>{1..9}.
           count_list (map (\<lambda>(r, col). g ! r ! col) (scope c)) (Some k) = 1"
proof (intro ballI)
  fix c k assume c: "c \<in> set sudoku_constraints" and k: "k \<in> {1..9::int}"
  from sudoku_scopes c have "length (map (\<lambda>(r, col). g ! r ! col) (scope c)) = 9" by simp
  with run_constraints [OF assms c] k
  show "count_list (map (\<lambda>(r, col). g ! r ! col) (scope c)) (Some k) = 1"
    by (intro nine_distinct_digits) auto
qed


subsection \<open>A run on a complete, valid grid\<close>

definition grid_env :: "int list list \<Rightarrow> env" where
  "grid_env pz = (\<lambda>(r, c). if r < length pz \<and> c < length (pz ! r) then Some (pz ! r ! c) else None)"

definition is_solved :: "int list list \<Rightarrow> bool" where
  "is_solved pz \<longleftrightarrow>
     is_puzzle pz \<and> (\<forall>row\<in>set pz. 0 \<notin> set row) \<and>
     (\<forall>c\<in>set sudoku_constraints. holds c (grid_env pz) = Inr True)"

text \<open>The 10 by 10 grid that holds the 9 by 9 grid \<open>pz\<close> and zeros in its last row and
  last column.\<close>

definition pad_grid :: "int list list \<Rightarrow> int option list list" where
  "pad_grid pz = map (\<lambda>row. map Some row @ [Some 0]) pz @ [replicate 10 (Some 0)]"

lemma dom_len_pos: "x \<in> elems d \<Longrightarrow> 0 < dom_len d"
proof (cases d)
  case (PyList xs)
  assume "x \<in> elems d"
  with PyList show ?thesis by (cases xs) auto
next
  case (PySet S)
  assume "x \<in> elems d"
  with PySet have "S \<noteq> {||}" by auto
  then have "0 < fcard S" by (metis fcard_0_eq gr0I)
  with PySet show ?thesis by (simp del: neq0_conv)
qed

lemma pad_grid_nth:
  assumes "is_puzzle pz"
  shows "length (pad_grid pz) = 10"
    and "i < 10 \<Longrightarrow> length (pad_grid pz ! i) = 10"
    and "i < 9 \<Longrightarrow> j < 9 \<Longrightarrow> pad_grid pz ! i ! j = Some (pz ! i ! j)"
    and "i < 10 \<Longrightarrow> j < 10 \<Longrightarrow> \<not> (i < 9 \<and> j < 9) \<Longrightarrow> pad_grid pz ! i ! j = Some 0"
proof -
  from assms have len: "length pz = 9" and rows: "\<And>i. i < 9 \<Longrightarrow> length (pz ! i) = 9"
    by (auto simp: is_puzzle_def)
  show "length (pad_grid pz) = 10" by (simp add: pad_grid_def len)
  have row: "pad_grid pz ! i = map Some (pz ! i) @ [Some 0]" if "i < 9" for i
    using that len by (simp add: pad_grid_def nth_append)
  have last: "pad_grid pz ! 9 = replicate 10 (Some 0)"
    using len by (simp add: pad_grid_def nth_append)
  show "length (pad_grid pz ! i) = 10" if "i < 10"
  proof (cases "i < 9")
    case True then show ?thesis by (simp add: row rows)
  next
    case False with that have "i = 9" by simp
    then show ?thesis by (simp add: last)
  qed
  show "pad_grid pz ! i ! j = Some (pz ! i ! j)" if "i < 9" "j < 9"
    using that by (simp add: row rows nth_append)
  show "pad_grid pz ! i ! j = Some 0" if "i < 10" "j < 10" "\<not> (i < 9 \<and> j < 9)"
  proof (cases "i < 9")
    case True
    with that have "j = 9" by simp
    with True show ?thesis by (simp add: row rows nth_append)
  next
    case False with that have "i = 9" by simp
    with that show ?thesis by (simp add: last)
  qed
qed

lemma complete_grid_run:
  assumes solved: "is_solved pz"
  shows "run orc pz = Inr (pad_grid pz)"
proof -
  from solved have pz: "is_puzzle pz" and nz: "\<And>row. row \<in> set pz \<Longrightarrow> 0 \<notin> set row"
    and valid: "\<And>c. c \<in> set sudoku_constraints \<Longrightarrow> holds c (grid_env pz) = Inr True"
    by (auto simp: is_solved_def)
  define ds where "ds = known_domains pz"
  define \<sigma> where "\<sigma> = grid_env pz"
  from pz obtain s where s: "Sudoku_init orc pz = Inr s" "well_formed (csp s) ds"
    "domains (csp s) = ds" "constraints (csp s) = sudoku_constraints"
    unfolding ds_def by (rule Sudoku_init_succeeds)
  define cs where "cs = csp s"
  note s = s [folded cs_def]
  have nine: "(r, c) \<in> set (positions pz) \<longleftrightarrow> r < 9 \<and> c < 9" for r c
    using pz by (auto simp: set_positions is_puzzle_def)
  have keys: "map fst ds = positions pz" by (simp add: ds_def known_domains_keys)
  have dom: "map_of ds (r, c) = Some (PyList [pz ! r ! c]) \<and> \<sigma> (r, c) = Some (pz ! r ! c)"
    if "r < 9" "c < 9" for r c
  proof -
    from that have pos: "(r, c) \<in> set (positions pz)" by (simp add: nine)
    then have "r < length pz" "c < length (pz ! r)" by (simp_all add: set_positions)
    moreover from this nz [of "pz ! r"] have "pz ! r ! c \<noteq> 0" by (metis nth_mem)
    ultimately show ?thesis using pos
      by (simp add: ds_def map_of_known_domains \<sigma>_def grid_env_def)
  qed
  have w: "within ds \<sigma>"
    unfolding within_def
  proof (intro allI impI)
    fix v d assume d: "map_of ds v = Some d"
    obtain r c where v: "v = (r, c)" by (cases v)
    from d have "v \<in> set (positions pz)"
      by (auto simp: ds_def map_of_known_domains split: if_splits)
    with v have "r < 9" "c < 9" by (simp_all add: nine)
    from dom [OF this] d v show "\<exists>x. \<sigma> v = Some x \<and> x \<in> elems d" by auto
  qed
  have sat: "satisfies cs \<sigma>" using valid by (simp add: satisfies_def s(4) \<sigma>_def)
  have "\<exists>out. make_arc_consistent orc cs (Some ds) None = Inr out \<and> pending_ok cs out [] \<and>
           well_formed cs out"
    using s(2) by (intro mac_consistent) (simp_all add: pending_all)
  then obtain out where mac: "make_arc_consistent orc cs (Some ds) None = Inr out"
    and ac: "pending_ok cs out []" by blast
  have sh: "shrinks out ds" using mac by (rule mac_shrinks)
  have wo: "within out \<sigma>"
    using mac_loop_sound [OF s(2) pending_all, of orc out \<sigma>] mac w sat
    by (simp add: make_arc_consistent_def)
  have one: "\<exists>d. map_of out k = Some d \<and> dom_len d = 1 \<and> select_first (iter orc d) = \<sigma> k"
    if k: "k \<in> set (map fst ds)" for k
  proof -
    obtain r c where kk: "k = (r, c)" by (cases k)
    with k have rc: "r < 9" "c < 9" by (simp_all add: keys nine)
    note d = dom [OF rc]
    from sh d obtain d' where d': "map_of out k = Some d'" "elems d' \<subseteq> {pz ! r ! c}"
      "dom_len d' \<le> 1"
      unfolding shrinks_def kk by fastforce
    from wo d' d kk have x: "pz ! r ! c \<in> elems d'" unfolding within_def by fastforce
    then have "0 < dom_len d'" by (rule dom_len_pos)
    with d'(3) have l: "dom_len d' = 1" by simp
    from l obtain y where y: "elems d' = {y}" "select_first (iter orc d') = Some y"
      by (rule singleton_first)
    with x have "y = pz ! r ! c" by simp
    with d' l y d kk show ?thesis by simp
  qed
  have keys_out: "\<forall>k\<in>set (map fst (case None of None \<Rightarrow> domains cs | Some ds \<Rightarrow> ds)).
      map_of out k \<noteq> None"
  proof
    fix k assume "k \<in> set (map fst (case None of None \<Rightarrow> domains cs | Some ds \<Rightarrow> ds))"
    then have "k \<in> set (map fst ds)" by (simp add: s(3))
    from one [OF this] show "map_of out k \<noteq> None" by auto
  qed
  have mac': "make_arc_consistent orc cs
      (Some (case None of None \<Rightarrow> domains cs | Some ds \<Rightarrow> ds)) None = Inr out"
    using mac by (simp add: s(3))
  have allone: "\<forall>k\<in>set (map fst (case None of None \<Rightarrow> domains cs | Some ds \<Rightarrow> ds)).
      \<exists>d. map_of out k = Some d \<and> dom_len d = 1"
  proof
    fix k assume "k \<in> set (map fst (case None of None \<Rightarrow> domains cs | Some ds \<Rightarrow> ds))"
    then have "k \<in> set (map fst ds)" by (simp add: s(3))
    from one [OF this] show "\<exists>d. map_of out k = Some d \<and> dom_len d = 1" by auto
  qed
  have noempty: "\<not> (\<exists>k\<in>set (map fst (case None of None \<Rightarrow> domains cs | Some ds \<Rightarrow> ds)).
      \<exists>d. map_of out k = Some d \<and> dom_len d = 0)"
  proof
    assume "\<exists>k\<in>set (map fst (case None of None \<Rightarrow> domains cs | Some ds \<Rightarrow> ds)).
      \<exists>d. map_of out k = Some d \<and> dom_len d = 0"
    then obtain k d where "k \<in> set (map fst (case None of None \<Rightarrow> domains cs | Some ds \<Rightarrow> ds))"
      "map_of out k = Some d" "dom_len d = 0" by blast
    with allone show False by fastforce
  qed
  define leaf where "leaf = map (\<lambda>k. (k, \<sigma> k)) (map fst ds)"
  have "map (\<lambda>k. (k, case map_of out k of None \<Rightarrow> None | Some d \<Rightarrow> select_first (iter orc d)))
      (map fst ds) = leaf"
    unfolding leaf_def
  proof (rule map_cong [OF refl])
    fix k assume "k \<in> set (map fst ds)"
    from one [OF this] show "(k, case map_of out k of None \<Rightarrow> None
        | Some d \<Rightarrow> select_first (iter orc d)) = (k, \<sigma> k)" by auto
  qed
  with solve_cases(2) [OF mac' keys_out noempty allone]
  have sol: "solve_recursive_ds orc cs None None = Inr (PyDict leaf)" by (simp add: s(3))
  have kl: "map fst leaf = positions pz" by (simp add: leaf_def keys comp_def)
  have ml: "map_of leaf (r, c) = (if r < 9 \<and> c < 9 then Some (Some (pz ! r ! c)) else None)" for r c
  proof (cases "r < 9 \<and> c < 9")
    case True
    then have "(r, c) \<in> set (map fst ds)" by (simp add: keys nine)
    then have "map_of leaf (r, c) = Some (\<sigma> (r, c))" unfolding leaf_def by (rule map_of_map_keys)
    with True dom [of r c] show ?thesis by simp
  next
    case False
    then have "(r, c) \<notin> set (map fst leaf)" by (simp add: kl nine)
    then have "map_of leaf (r, c) = None" by (simp add: map_of_eq_None_iff)
    with False show ?thesis by simp
  qed
  let ?g0 = "replicate 10 (replicate 10 (Some (0::int)))"
  have "distinct (map fst leaf)" by (simp add: kl distinct_positions)
  moreover have "\<forall>p\<in>set (map fst leaf). fst p < length ?g0 \<and> snd p < length (?g0 ! fst p)"
  proof
    fix p assume "p \<in> set (map fst leaf)"
    then have "(fst p, snd p) \<in> set (positions pz)" by (simp add: kl)
    then have "fst p < 9 \<and> snd p < 9" by (simp only: nine)
    then show "fst p < length ?g0 \<and> snd p < length (?g0 ! fst p)" by simp
  qed
  ultimately have "\<exists>g'. store ?g0 leaf = Inr g' \<and>
     (\<forall>r c val. map_of leaf (r, c) = Some val \<longrightarrow> g' ! r ! c = val) \<and>
     (\<forall>r c. r < length ?g0 \<longrightarrow> map_of leaf (r, c) = None \<longrightarrow> g' ! r ! c = ?g0 ! r ! c)"
    by (rule store_cells)
  then obtain g' where st: "store ?g0 leaf = Inr g'"
    and some: "\<And>r c val. map_of leaf (r, c) = Some val \<Longrightarrow> g' ! r ! c = val"
    and none: "\<And>r c. r < 10 \<Longrightarrow> map_of leaf (r, c) = None \<Longrightarrow> g' ! r ! c = ?g0 ! r ! c"
    by auto
  from store_shape [OF st] have shape: "length g' = 10" "\<And>r. r < 10 \<Longrightarrow> length (g' ! r) = 10"
    by simp_all
  have "g' = pad_grid pz"
  proof (rule nth_equalityI)
    show "length g' = length (pad_grid pz)" using shape(1) pad_grid_nth(1) [OF pz] by simp
    fix i assume "i < length g'"
    then have i: "i < 10" by (simp add: shape)
    show "g' ! i = pad_grid pz ! i"
    proof (rule nth_equalityI)
      show "length (g' ! i) = length (pad_grid pz ! i)"
        using shape(2) [OF i] pad_grid_nth(2) [OF pz i] by simp
      fix j assume "j < length (g' ! i)"
      then have j: "j < 10" using shape(2) [OF i] by simp
      show "g' ! i ! j = pad_grid pz ! i ! j"
      proof (cases "i < 9 \<and> j < 9")
        case True
        then have "g' ! i ! j = Some (pz ! i ! j)" using some [of i j] by (simp add: ml)
        with True pad_grid_nth(3) [OF pz, of i j] show ?thesis by simp
      next
        case False
        then have "map_of leaf (i, j) = None" by (simp add: ml)
        from none [OF i this] i j have "g' ! i ! j = Some 0" by simp
        with False pad_grid_nth(4) [OF pz i j] show ?thesis by simp
      qed
    qed
  qed
  with st sol s(1) show ?thesis by (simp add: run_def solve_def cs_def)
qed


definition solved_grid :: "int list list" where
  "solved_grid =
    [[5, 3, 4, 6, 7, 8, 9, 1, 2],
     [6, 7, 2, 1, 9, 5, 3, 4, 8],
     [1, 9, 8, 3, 4, 2, 5, 6, 7],
     [8, 5, 9, 7, 6, 1, 4, 2, 3],
     [4, 2, 6, 8, 5, 3, 7, 9, 1],
     [7, 1, 3, 9, 2, 4, 8, 5, 6],
     [9, 6, 1, 5, 3, 7, 2, 8, 4],
     [2, 8, 7, 4, 1, 9, 6, 3, 5],
     [3, 4, 5, 2, 8, 6, 1, 7, 9]]"

lemma solved_grid_is_puzzle: "is_puzzle solved_grid"
  unfolding is_puzzle_def by code_simp

lemma solved_grid_is_solved: "is_solved solved_grid"
  unfolding is_solved_def is_puzzle_def by code_simp

lemma solved_grid_run: "run orc solved_grid = Inr (pad_grid solved_grid)"
  using solved_grid_is_solved by (rule complete_grid_run)

theorem solved_grid_all_different_witness:
  "is_puzzle solved_grid \<and> run first_choice solved_grid = Inr (pad_grid solved_grid) \<and>
   count_list (map (\<lambda>(r, col). pad_grid solved_grid ! r ! col) (scope (sudoku_constraints ! 0)))
     (Some 5) = 1"
proof -
  have c: "sudoku_constraints ! 0 \<in> set sudoku_constraints" by code_simp
  have k: "(5::int) \<in> {1..9}" by simp
  from solved_grid_all_different [OF solved_grid_is_puzzle solved_grid_run [of first_choice]] c k
  have "count_list (map (\<lambda>(r, col). pad_grid solved_grid ! r ! col) (scope (sudoku_constraints ! 0)))
     (Some 5) = 1" by blast
  with solved_grid_is_puzzle solved_grid_run show ?thesis by simp
qed

subsection \<open>The shape of the returned grid\<close>

lemma run_store:
  assumes "run orc pz = Inr g"
  shows "\<exists>s sol. Sudoku_init orc pz = Inr s \<and>
    solve_recursive_ds orc (csp s) None None = Inr (PyDict sol) \<and>
    store (replicate 10 (replicate 10 (Some 0))) sol = Inr g"
  using assms by (auto simp: run_def solve_def split: sum.splits result.splits)

text \<open>
  C1 fails on the code: \<open>solve\<close> builds its answer in a grid of 10 rows of 10 cells, so
  every grid it returns has 10 rows of 10 cells, and on a 9 by 9 puzzle the cells of the
  tenth row and of the tenth column are never written and hold 0.
\<close>

theorem returned_grid_is_ten_by_ten:
  assumes "is_puzzle pz" and "run orc pz = Inr g"
  shows "length g = 10 \<and> (\<forall>r<10. length (g ! r) = 10 \<and> g ! r ! 9 = Some 0 \<and> g ! 9 ! r = Some 0)"
proof -
  from run_result_ex [OF assms] obtain s :: sudoku and sol
    where so: "solution_of (csp s) (known_domains pz) sol"
      and st: "store (replicate 10 (replicate 10 (Some 0))) sol = Inr g"
    by auto
  let ?g0 = "replicate 10 (replicate 10 (Some (0::int)))"
  from store_shape [OF st] have shape: "length g = 10" "\<And>r. r < 10 \<Longrightarrow> length (g ! r) = 10"
    by simp_all
  from so have keys: "map fst sol = positions pz"
    by (simp add: solution_of_def known_domains_keys)
  have nine: "(r, c) \<in> set (positions pz) \<longleftrightarrow> r < 9 \<and> c < 9" for r c
    using assms(1) by (auto simp: set_positions is_puzzle_def)
  have "distinct (map fst sol)" by (simp add: keys distinct_positions)
  moreover have "\<forall>p\<in>set (map fst sol). fst p < length ?g0 \<and> snd p < length (?g0 ! fst p)"
  proof
    fix p assume "p \<in> set (map fst sol)"
    then have "(fst p, snd p) \<in> set (positions pz)" by (simp add: keys)
    then have "fst p < 9 \<and> snd p < 9" by (simp only: nine)
    then show "fst p < length ?g0 \<and> snd p < length (?g0 ! fst p)" by simp
  qed
  ultimately have "\<exists>g'. store ?g0 sol = Inr g' \<and>
     (\<forall>r c val. map_of sol (r, c) = Some val \<longrightarrow> g' ! r ! c = val) \<and>
     (\<forall>r c. r < length ?g0 \<longrightarrow> map_of sol (r, c) = None \<longrightarrow> g' ! r ! c = ?g0 ! r ! c)"
    by (rule store_cells)
  with st have none: "\<And>r c. r < 10 \<Longrightarrow> map_of sol (r, c) = None \<Longrightarrow> g ! r ! c = ?g0 ! r ! c"
    by auto
  have unset: "map_of sol (r, c) = None" if "\<not> (r < 9 \<and> c < 9)" for r c
  proof -
    from that have "(r, c) \<notin> set (map fst sol)" by (simp add: keys nine)
    then show ?thesis by (simp add: map_of_eq_None_iff)
  qed
  have "g ! r ! 9 = Some 0 \<and> g ! 9 ! r = Some 0" if "r < 10" for r
    using none [OF that unset, of 9] none [OF _ unset, of 9 r] that by simp
  with shape show ?thesis by simp
qed

theorem returned_grid_is_ten_by_ten_witness:
  "is_puzzle solved_grid \<and> run first_choice solved_grid = Inr (pad_grid solved_grid) \<and>
   length (pad_grid solved_grid) = 10 \<and> length (pad_grid solved_grid ! 0) = 10 \<and>
   pad_grid solved_grid ! 0 ! 9 = Some 0 \<and> pad_grid solved_grid ! 9 ! 0 = Some 0"
  using returned_grid_is_ten_by_ten [OF solved_grid_is_puzzle solved_grid_run [of first_choice]]
    solved_grid_is_puzzle solved_grid_run [of first_choice]
  by simp

text \<open>
  C7 fails on the code at a complete valid grid: \<open>solve\<close> returns the grid with a column
  of zeros and a row of zeros added, not the grid itself.
\<close>

theorem solved_grid_not_returned:
  "run orc solved_grid = Inr (pad_grid solved_grid) \<and>
   pad_grid solved_grid \<noteq> map (map Some) solved_grid"
proof -
  have "length (pad_grid solved_grid) \<noteq> length (map (map Some) solved_grid)"
    by (simp add: pad_grid_def)
  then have "pad_grid solved_grid \<noteq> map (map Some) solved_grid" by metis
  with solved_grid_run show ?thesis by simp
qed


subsection \<open>A puzzle without solution\<close>

lemma given_excluded:
  assumes ac: "pending_ok cs out []" and c: "c \<in> set (constraints cs)"
    and p: "p \<in> set (scope c)" and q: "q \<in> set (scope c)" and ne: "p \<noteq> q"
    and dq: "map_of out q = Some dq" "elems dq \<subseteq> {x}"
    and dp: "map_of out p = Some dp"
  shows "x \<notin> elems dp"
proof
  assume x: "x \<in> elems dp"
  from c p have "(p, c) \<in> arcs_of cs" by (simp add: arcs_of_def)
  with ac have "arc_ok out (p, c)" by (simp add: pending_ok_def)
  with dp x have "supported out p c x" by (auto simp: arc_ok_def)
  then obtain \<tau> where t: "\<tau> p = Some x"
    "\<forall>u\<in>set (scope c). u \<noteq> p \<longrightarrow> (\<exists>d y. map_of out u = Some d \<and> \<tau> u = Some y \<and> y \<in> elems d)"
    "holds c \<tau> = Inr True"
    unfolding supported_witness by blast
  from t(2) q ne obtain d y where "map_of out q = Some d" "\<tau> q = Some y" "y \<in> elems d"
    by metis
  with dq have tq: "\<tau> q = Some x" by auto
  from t(3) p q ne obtain a b where "\<tau> p = Some a" "\<tau> q = Some b" "a \<noteq> b"
    unfolding holds_True by metis
  with t(1) tq show False by simp
qed

lemma arc_ok_empty:
  assumes ac: "pending_ok cs out []" and c: "c \<in> set (constraints cs)" and p: "p \<in> set (scope c)"
    and dp: "map_of out p = Some dp" and "elems dp = {}"
  shows "dom_len dp = 0"
proof -
  from c p have "(p, c) \<in> arcs_of cs" by (simp add: arcs_of_def)
  with ac have "arc_ok out (p, c)" by (simp add: pending_ok_def)
  with dp obtain S where "dp = PySet S" by (auto simp: arc_ok_def)
  with assms(5) show ?thesis by (simp add: fcard.rep_eq)
qed

text \<open>
  Two cells of one scope that are given the same digit: propagation empties a domain,
  the search returns \<^verbatim>\<open>False\<close>, and \<open>solve\<close> raises on \<^verbatim>\<open>solutions.items()\<close>.
\<close>

lemma clash_raises:
  assumes pz: "is_puzzle pz" and c: "c \<in> set sudoku_constraints"
    and p: "p \<in> set (scope c)" and q: "q \<in> set (scope c)" and ne: "p \<noteq> q"
    and same: "pz ! fst p ! snd p = x" "pz ! fst q ! snd q = x" "x \<noteq> 0"
  shows "run orc pz = Inl AttributeError"
proof -
  define ds where "ds = known_domains pz"
  from pz obtain s where s: "Sudoku_init orc pz = Inr s" "well_formed (csp s) ds"
    "domains (csp s) = ds" "constraints (csp s) = sudoku_constraints"
    unfolding ds_def by (rule Sudoku_init_succeeds)
  define cs where "cs = csp s"
  note s = s [folded cs_def]
  have "\<exists>out. make_arc_consistent orc cs (Some ds) None = Inr out \<and> pending_ok cs out [] \<and>
           well_formed cs out"
    using s(2) by (intro mac_consistent) (simp_all add: pending_all)
  then obtain out where mac: "make_arc_consistent orc cs (Some ds) None = Inr out"
    and ac: "pending_ok cs out []" by blast
  have sh: "shrinks out ds" using mac by (rule mac_shrinks)
  from sudoku_scopes c p q have lt: "fst p < 9" "snd p < 9" "fst q < 9" "snd q < 9" by blast+
  have pos: "v \<in> set (positions pz)" if "fst v < 9" "snd v < 9" for v
    using pz that set_positions [of "fst v" "snd v" pz] by (simp add: is_puzzle_def)
  have given: "map_of ds v = Some (PyList [x])" if "fst v < 9" "snd v < 9" "pz ! fst v ! snd v = x" for v
    using pos [OF that(1,2)] that(3) same(3) by (simp add: ds_def map_of_known_domains)
  have below: "\<exists>d'. map_of out v = Some d' \<and> elems d' \<subseteq> {x}" if "map_of ds v = Some (PyList [x])" for v
  proof -
    from sh that have "\<exists>d'. map_of out v = Some d' \<and> elems d' \<subseteq> elems (PyList [x]) \<and>
        dom_len d' \<le> dom_len (PyList [x])"
      unfolding shrinks_def by blast
    then show ?thesis by auto
  qed
  from below [OF given [OF lt(1,2) same(1)]] obtain dp
    where dp: "map_of out p = Some dp" "elems dp \<subseteq> {x}" by blast
  from below [OF given [OF lt(3,4) same(2)]] obtain dq
    where dq: "map_of out q = Some dq" "elems dq \<subseteq> {x}" by blast
  have cc: "c \<in> set (constraints cs)" using c by (simp add: s(4))
  have "x \<notin> elems dp" using ac cc p q ne dq dp(1) by (rule given_excluded)
  with dp(2) have "elems dp = {}" by auto
  with ac cc p dp(1) have zero: "dom_len dp = 0" by (rule arc_ok_empty)
  have keys: "\<forall>k\<in>set (map fst (case None of None \<Rightarrow> domains cs | Some ds \<Rightarrow> ds)). map_of out k \<noteq> None"
  proof
    fix k assume "k \<in> set (map fst (case None of None \<Rightarrow> domains cs | Some ds \<Rightarrow> ds))"
    then have "k \<in> set (map fst ds)" by (simp add: s(3))
    then have "map_of ds k \<noteq> None" by (simp add: map_of_eq_None_iff)
    with shrinks_keys [OF sh, of k] show "map_of out k \<noteq> None" by blast
  qed
  have mac': "make_arc_consistent orc cs
      (Some (case None of None \<Rightarrow> domains cs | Some ds \<Rightarrow> ds)) None = Inr out"
    using mac by (simp add: s(3))
  have "p \<in> set (map fst ds)" using pos [OF lt(1,2)] by (simp add: ds_def known_domains_keys)
  with dp(1) zero
  have "\<exists>k\<in>set (map fst (case None of None \<Rightarrow> domains cs | Some ds \<Rightarrow> ds)).
      \<exists>d. map_of out k = Some d \<and> dom_len d = 0"
    by (auto simp: s(3))
  from solve_cases(1) [OF mac' keys this]
  have "solve_recursive_ds orc cs None None = Inr PyFalse" .
  with s(1) show ?thesis by (simp add: run_def solve_def cs_def)
qed

definition clash_puzzle :: "int list list" where
  "clash_puzzle = [1, 1, 0, 0, 0, 0, 0, 0, 0] # replicate 8 (replicate 9 0)"

text \<open>
  C3 fails on the code at a puzzle whose first row starts with two 1s: the failure of the
  search reaches the caller of \<open>solve\<close> as an \<^verbatim>\<open>AttributeError\<close>, under every iteration
  order.
\<close>

theorem clash_puzzle_raises: "run orc clash_puzzle = Inl AttributeError"
proof (rule clash_raises [where c = "sudoku_constraints ! 0" and p = "(0, 0)" and q = "(0, 1)" and x = 1])
  show "is_puzzle clash_puzzle" unfolding is_puzzle_def by code_simp
  show "sudoku_constraints ! 0 \<in> set sudoku_constraints" by code_simp
  show "(0, 0) \<in> set (scope (sudoku_constraints ! 0))" by code_simp
  show "(0, 1) \<in> set (scope (sudoku_constraints ! 0))" by code_simp
  show "((0, 0) :: var) \<noteq> (0, 1)" by simp
  show "clash_puzzle ! fst ((0, 0) :: var) ! snd ((0, 0) :: var) = 1" by code_simp
  show "clash_puzzle ! fst ((0, 1) :: var) ! snd ((0, 1) :: var) = 1" by code_simp
  show "(1::int) \<noteq> 0" by simp
qed

end
